theory Spec2Isabelle
  imports Main "HOL-Library.Word"
begin

unbundle bit_operations_syntax

section \<open>Bytes and the values handed to encoding/binary\<close>

text \<open>
  The encoder of \<^verbatim>\<open>encoder.go\<close> serialises integers with Go's \<^verbatim>\<open>encoding/binary\<close>:
  \<^verbatim>\<open>binary.Size\<close> and \<^verbatim>\<open>binary.Write\<close> take an \<^verbatim>\<open>interface{}\<close>. The values the encoder
  itself passes are fixed-width integers, \<^verbatim>\<open>[4]byte\<close> chunk identifiers and \<^verbatim>\<open>[]byte\<close>
  slices; \<^verbatim>\<open>AddLE\<close>, \<^verbatim>\<open>AddBE\<close> and \<^verbatim>\<open>WriteFrame\<close> are exported and accept any value,
  also one that \<^verbatim>\<open>encoding/binary\<close> cannot size (a Go \<^verbatim>\<open>int\<close>, a string): for those
  \<^verbatim>\<open>binary.Size\<close> returns \<open>-1\<close> and \<^verbatim>\<open>binary.Write\<close> returns an error before it touches
  the writer.
\<close>

type_synonym byte = "8 word"

datatype ByteOrder = LittleEndian | BigEndian

datatype go_value =
    GoUint8 "8 word"
  | GoInt16 "16 word"
  | GoUint16 "16 word"
  | GoInt32 "32 word"
  | GoUint32 "32 word"
  | GoBytes "byte list"
  | GoNotFixedSize

definition PutUint16 :: "16 word \<Rightarrow> byte list" where
  "PutUint16 v = [ucast v, ucast (drop_bit 8 v)]"

definition PutUint32 :: "32 word \<Rightarrow> byte list" where
  "PutUint32 v = [ucast v, ucast (drop_bit 8 v), ucast (drop_bit 16 v), ucast (drop_bit 24 v)]"

fun binary_Size :: "go_value \<Rightarrow> int" where
  "binary_Size (GoUint8 v) = 1"
| "binary_Size (GoInt16 v) = 2"
| "binary_Size (GoUint16 v) = 2"
| "binary_Size (GoInt32 v) = 4"
| "binary_Size (GoUint32 v) = 4"
| "binary_Size (GoBytes bs) = int (length bs)"
| "binary_Size GoNotFixedSize = -1"

fun le_bytes :: "go_value \<Rightarrow> byte list option" where
  "le_bytes (GoUint8 v) = Some [v]"
| "le_bytes (GoInt16 v) = Some (PutUint16 v)"
| "le_bytes (GoUint16 v) = Some (PutUint16 v)"
| "le_bytes (GoInt32 v) = Some (PutUint32 v)"
| "le_bytes (GoUint32 v) = Some (PutUint32 v)"
| "le_bytes (GoBytes bs) = Some bs"
| "le_bytes GoNotFixedSize = None"

fun binary_bytes :: "ByteOrder \<Rightarrow> go_value \<Rightarrow> byte list option" where
  "binary_bytes order (GoBytes bs) = Some bs"
| "binary_bytes LittleEndian v = le_bytes v"
| "binary_bytes BigEndian v = map_option rev (le_bytes v)"

text \<open>
  Modelled from the spec: the chunk identifiers \<^verbatim>\<open>riff.RiffID\<close>, \<^verbatim>\<open>riff.WavFormatID\<close>,
  \<^verbatim>\<open>riff.FmtID\<close>, \<^verbatim>\<open>riff.DataFormatID\<close> (of \<^verbatim>\<open>go-audio/riff\<close>) and \<^verbatim>\<open>CIDList\<close> (declared
  in another file of the package) are \<^verbatim>\<open>[4]byte\<close> values; the file layout of the spec
  gives their bytes: \<^verbatim>\<open>RIFF\<close>, \<^verbatim>\<open>WAVE\<close>, \<^verbatim>\<open>fmt \<close>, \<^verbatim>\<open>data\<close>, \<^verbatim>\<open>LIST\<close>.
\<close>

definition RiffID :: go_value where
  "RiffID = GoBytes [0x52, 0x49, 0x46, 0x46]"

definition WavFormatID :: go_value where
  "WavFormatID = GoBytes [0x57, 0x41, 0x56, 0x45]"

definition FmtID :: go_value where
  "FmtID = GoBytes [0x66, 0x6D, 0x74, 0x20]"

definition DataFormatID :: go_value where
  "DataFormatID = GoBytes [0x64, 0x61, 0x74, 0x61]"

definition CIDList :: go_value where
  "CIDList = GoBytes [0x4C, 0x49, 0x53, 0x54]"

text \<open>Go's integer division truncates towards zero.\<close>

definition go_div :: "int \<Rightarrow> int \<Rightarrow> int" where
  "go_div a b = sgn a * sgn b * (\<bar>a\<bar> div \<bar>b\<bar>)"

section \<open>Errors\<close>

text \<open>
  Every error the encoder returns, and the two run-time panics a call can end in (a method
  call on the nil writer, an index out of range), as values. \<open>ErrWrap\<close> is
  \<^verbatim>\<open>fmt.Errorf\<close> with \<^verbatim>\<open>%w\<close>: a context around the wrapped error.
\<close>

datatype error =
    ErrNilBuffer
  | ErrBitSize int
  | ErrAlreadyWroteHeader
  | ErrNilWriter
  | ErrNotFixedSize
  | ErrSink nat
  | ErrNegativeOffset
  | ErrInvalidSeek
  | ErrWrap string error
  | PanicNilWriter
  | PanicIndex

section \<open>The byte sink\<close>

text \<open>
  Modelled from the spec: the sink (\<^verbatim>\<open>WriterAtSeeker\<close>: \<^verbatim>\<open>io.Writer\<close>, \<^verbatim>\<open>io.WriterAt\<close>,
  \<^verbatim>\<open>io.Seeker\<close>) is an interface whose implementation is the caller's. The model is a
  file held in memory, as \<^verbatim>\<open>os.File\<close> behaves: \<open>content\<close> are its bytes, \<open>cursor\<close> is
  the position of the next sequential write, a write past the end fills the gap with
  zero bytes, a write of no bytes changes nothing, and a positioned write leaves the
  cursor alone. \<open>script\<close> decides which operations fail: each operation takes the head
  of the script; \<open>None\<close> (or an empty script) lets it succeed, \<open>Some (k, c)\<close> makes it
  fail with error \<open>ErrSink c\<close> after \<open>k\<close> bytes of a write went through. A positioned
  write at a negative offset and a seek to a negative position are refused before the
  sink is touched. \<open>Seek\<close> takes Go's \<open>whence\<close>: 0 from the start, 1 from the cursor, 2 from
  the end. \<open>written\<close> is the history of the writes that reached the sink (offset and
  bytes, latest first). \<open>is_os_file\<close> says that the sink is an \<^verbatim>\<open>*os.File\<close>, which \<open>Close\<close>
  syncs.
\<close>

record sink =
  content :: "byte list"
  cursor :: nat
  script :: "(nat \<times> nat) option list"
  written :: "(nat \<times> byte list) list"
  is_os_file :: bool

definition put_at :: "byte list \<Rightarrow> nat \<Rightarrow> byte list \<Rightarrow> byte list" where
  "put_at c off bs =
     (if bs = [] then c
      else take off c @ replicate (off - length c) 0 @ bs @ drop (off + length bs) c)"

definition store :: "sink \<Rightarrow> nat \<Rightarrow> byte list \<Rightarrow> sink" where
  "store s off bs =
     s\<lparr>content := put_at (content s) off bs, written := (off, bs) # written s\<rparr>"

definition advance :: "sink \<Rightarrow> sink" where
  "advance s = s\<lparr>script := tl (script s)\<rparr>"

definition fault :: "sink \<Rightarrow> (nat \<times> nat) option" where
  "fault s = (case script s of [] \<Rightarrow> None | f # fs \<Rightarrow> f)"

definition sink_Write :: "sink \<Rightarrow> byte list \<Rightarrow> sink \<times> int \<times> error option" where
  "sink_Write s p =
     (case fault s of
        None \<Rightarrow>
          ((store (advance s) (cursor s) p)\<lparr>cursor := cursor s + length p\<rparr>,
           int (length p), None)
      | Some (k, c) \<Rightarrow>
          ((store (advance s) (cursor s) (take k p))\<lparr>cursor := cursor s + length (take k p)\<rparr>,
           int (length (take k p)), Some (ErrSink c)))"

definition sink_WriteAt :: "sink \<Rightarrow> byte list \<Rightarrow> int \<Rightarrow> sink \<times> int \<times> error option" where
  "sink_WriteAt s p off =
     (if off < 0 then (s, 0, Some ErrNegativeOffset)
      else case fault s of
        None \<Rightarrow> (store (advance s) (nat off) p, int (length p), None)
      | Some (k, c) \<Rightarrow>
          (store (advance s) (nat off) (take k p), int (length (take k p)), Some (ErrSink c)))"

definition sink_Seek :: "sink \<Rightarrow> int \<Rightarrow> int \<Rightarrow> sink \<times> error option" where
  "sink_Seek s off whence =
     (let base = (if whence = 0 then 0
                  else if whence = 1 then int (cursor s)
                  else int (length (content s)))
      in if whence < 0 \<or> 2 < whence \<or> base + off < 0 then (s, Some ErrInvalidSeek)
         else case fault s of
           None \<Rightarrow> ((advance s)\<lparr>cursor := nat (base + off)\<rparr>, None)
         | Some (k, c) \<Rightarrow> (advance s, Some (ErrSink c)))"

definition sink_Sync :: "sink \<Rightarrow> sink \<times> error option" where
  "sink_Sync s =
     (case fault s of
        None \<Rightarrow> (advance s, None)
      | Some (k, c) \<Rightarrow> (advance s, Some (ErrSink c)))"

section \<open>The sample buffer\<close>

text \<open>
  Modelled from the spec: \<^verbatim>\<open>audio.IntBuffer\<close> of \<^verbatim>\<open>go-audio/audio\<close> is a collaborator
  ``exposing channel count and a flat interleaved integer sample sequence with a known
  frame count''. \<open>Format\<close> is a pointer and may be nil; the samples are Go \<^verbatim>\<open>int\<close>s
  (64 bits). \<open>NumFrames\<close> is the library's method: no frames without a format, and a
  channel count of zero counts as one.
\<close>

record audio_Format =
  NumChannels :: int
  SampleRate_fmt :: int

record IntBuffer =
  Format :: "audio_Format option"
  Data :: "64 word list"
  SourceBitDepth :: int

definition NumFrames :: "IntBuffer \<Rightarrow> int" where
  "NumFrames buf =
     (case Format buf of
        None \<Rightarrow> 0
      | Some f \<Rightarrow>
          (let numChannels = (if NumChannels f = 0 then 1 else NumChannels f)
           in go_div (int (length (Data buf))) numChannels))"

text \<open>
  \<^verbatim>\<open>audio.Int32toInt24LEBytes\<close>: sign-extend from bit 23, then the three low bytes, lowest
  first (the shifts are arithmetic: the argument is an \<^verbatim>\<open>int32\<close>).
\<close>

definition Int32toInt24LEBytes :: "32 word \<Rightarrow> byte list" where
  "Int32toInt24LEBytes n =
     (let n' = (if n AND 0x800000 \<noteq> 0 then n OR NOT 0xffffff else n)
      in [ucast n', ucast (signed_drop_bit 8 n'), ucast (signed_drop_bit 16 n')])"

section \<open>The encoder\<close>

text \<open>
  \<^verbatim>\<open>Encoder\<close> with the fields the code reads and writes. The mutex and the buffer
  pool are left out: the calls are modelled one after the other, and a pooled buffer is
  empty whenever it is taken (it is reset before it goes back, and the one early return
  that skips the reset, the unsupported bit depth, happens before the first byte is
  encoded). \<open>Metadata\<close> is the attached metadata, given by the bytes
  \<^verbatim>\<open>encodeInfoChunk\<close> encodes it to (see below).
  Go's \<^verbatim>\<open>int\<close> counters are integers here; every conversion to \<^verbatim>\<open>uint16\<close> or
  \<^verbatim>\<open>uint32\<close> truncates as in Go.
\<close>

record Encoder =
  w :: "sink option"
  SampleRate :: int
  BitDepth :: int
  NumChans :: int
  WavAudioFormat :: int
  Metadata :: "byte list option"
  WrittenBytes :: int
  frames :: int
  pcmChunkStarted :: bool
  pcmChunkSizePos :: int
  pcmChunkPos :: int
  wroteHeader :: bool

definition NewEncoder :: "sink option \<Rightarrow> int \<Rightarrow> int \<Rightarrow> int \<Rightarrow> int \<Rightarrow> Encoder" where
  "NewEncoder wr sampleRate bitDepth numChans audioFormat =
     \<lparr>w = wr, SampleRate = sampleRate, BitDepth = bitDepth, NumChans = numChans,
      WavAudioFormat = audioFormat, Metadata = None, WrittenBytes = 0, frames = 0,
      pcmChunkStarted = False, pcmChunkSizePos = 0, pcmChunkPos = 0, wroteHeader = False\<rparr>"

subsection \<open>Sequencing calls that return an error\<close>

text \<open>
  A call returns the encoder it leaves behind and Go's \<^verbatim>\<open>error\<close> (\<open>None\<close> is nil).
  \<open>andThen\<close> is \<^verbatim>\<open>if err != nil { return err }\<close>; \<open>wrapping\<close> is
  \<^verbatim>\<open>if err != nil { return fmt.Errorf("... %w", err) }\<close>, which a panic passes untouched.
\<close>

definition is_panic :: "error \<Rightarrow> bool" where
  "is_panic err = (err = PanicNilWriter \<or> err = PanicIndex)"

definition andThen ::
  "Encoder \<times> error option \<Rightarrow> (Encoder \<Rightarrow> Encoder \<times> error option) \<Rightarrow> Encoder \<times> error option" where
  "andThen r f = (case snd r of Some err \<Rightarrow> r | None \<Rightarrow> f (fst r))"

definition wrapping :: "string \<Rightarrow> Encoder \<times> error option \<Rightarrow> Encoder \<times> error option" where
  "wrapping ctx r =
     (case snd r of
        None \<Rightarrow> r
      | Some err \<Rightarrow> if is_panic err then r else (fst r, Some (ErrWrap ctx err)))"

subsection \<open>AddLE, AddBE and the header\<close>

definition binary_Write :: "Encoder \<Rightarrow> ByteOrder \<Rightarrow> go_value \<Rightarrow> Encoder \<times> error option" where
  "binary_Write e order src =
     (case binary_bytes order src of
        None \<Rightarrow> (e, Some ErrNotFixedSize)
      | Some bs \<Rightarrow>
          (case w e of
             None \<Rightarrow> (e, Some PanicNilWriter)
           | Some s \<Rightarrow>
               (case sink_Write s bs of (s', n, err) \<Rightarrow> (e\<lparr>w := Some s'\<rparr>, err))))"

definition AddLE :: "Encoder \<Rightarrow> go_value \<Rightarrow> Encoder \<times> error option" where
  "AddLE e src =
     binary_Write (e\<lparr>WrittenBytes := WrittenBytes e + binary_Size src\<rparr>) LittleEndian src"

definition AddBE :: "Encoder \<Rightarrow> go_value \<Rightarrow> Encoder \<times> error option" where
  "AddBE e src =
     binary_Write (e\<lparr>WrittenBytes := WrittenBytes e + binary_Size src\<rparr>) BigEndian src"

definition blockAlign :: "Encoder \<Rightarrow> int" where
  "blockAlign e = go_div (NumChans e * BitDepth e) 8"

definition writeHeader :: "Encoder \<Rightarrow> Encoder \<times> error option" where
  "writeHeader e0 =
     (if wroteHeader e0 then (e0, Some ErrAlreadyWroteHeader)
      else let e = e0\<lparr>wroteHeader := True\<rparr> in
        if w e = None then (e, Some ErrNilWriter)
        else if WrittenBytes e > 0 then (e, None)
        else
          andThen (AddLE e RiffID) (\<lambda>e.
          andThen (AddLE e (GoUint32 42)) (\<lambda>e.
          andThen (AddLE e WavFormatID) (\<lambda>e.
          andThen (AddLE e FmtID) (\<lambda>e.
          andThen (AddLE e (GoUint32 16)) (\<lambda>e.
          andThen (AddLE e (GoUint16 (word_of_int (WavAudioFormat e)))) (\<lambda>e.
          andThen (wrapping ''error encoding the number of channels''
                     (AddLE e (GoUint16 (word_of_int (NumChans e))))) (\<lambda>e.
          andThen (wrapping ''error encoding the sample rate''
                     (AddLE e (GoUint32 (word_of_int (SampleRate e))))) (\<lambda>e.
          andThen (wrapping ''error encoding the avg bytes per sec''
                     (AddLE e (GoUint32 (word_of_int (SampleRate e * blockAlign e))))) (\<lambda>e.
          andThen (AddLE e (GoUint16 (word_of_int (blockAlign e)))) (\<lambda>e.
          wrapping ''error encoding bits per sample''
            (AddLE e (GoUint16 (word_of_int (BitDepth e)))))))))))))))"

definition writeSetup :: "Encoder \<Rightarrow> Encoder \<times> error option" where
  "writeSetup e0 =
     andThen (if \<not> wroteHeader e0 then writeHeader e0 else (e0, None)) (\<lambda>e.
       if \<not> pcmChunkStarted e then
         andThen (wrapping ''error encoding sound header'' (AddLE e DataFormatID)) (\<lambda>e.
           let e = e\<lparr>pcmChunkStarted := True\<rparr>;
               e = e\<lparr>pcmChunkSizePos := WrittenBytes e\<rparr>
           in andThen (wrapping ''when writing wav data chunk size header''
                         (AddLE e (GoUint32 42))) (\<lambda>e.
                (e\<lparr>pcmChunkPos := WrittenBytes e\<rparr>, None)))
       else (e, None))"

subsection \<open>Encoding the samples\<close>

definition encodeSample :: "int \<Rightarrow> 64 word \<Rightarrow> error + byte list" where
  "encodeSample bitDepth v =
     (if bitDepth = 8 then Inr [ucast v]
      else if bitDepth = 16 then Inr (PutUint16 (ucast v))
      else if bitDepth = 24 then Inr (Int32toInt24LEBytes (ucast v))
      else if bitDepth = 32 then Inr (PutUint32 (ucast v))
      else Inl (ErrBitSize bitDepth))"

text \<open>
  A counted \<^verbatim>\<open>for\<close> loop over the indices \<open>is\<close>, threading the loop's variables and
  leaving at the first error.
\<close>

fun forRange :: "nat list \<Rightarrow> 'a \<Rightarrow> (nat \<Rightarrow> 'a \<Rightarrow> error + 'a) \<Rightarrow> error + 'a" where
  "forRange [] a body = Inr a"
| "forRange (i # is) a body =
     (case body i a of Inl err \<Rightarrow> Inl err | Inr a' \<Rightarrow> forRange is a' body)"

text \<open>
  \<^verbatim>\<open>buf.Format.NumChannels\<close> is read inside the loop over the frames only, which runs no
  iteration when \<open>Format\<close> is nil (\<open>NumFrames\<close> is 0 then).
\<close>

definition bufChannels :: "IntBuffer \<Rightarrow> int" where
  "bufChannels buf = (case Format buf of None \<Rightarrow> 0 | Some f \<Rightarrow> NumChannels f)"

definition encodeChannels :: "int \<Rightarrow> IntBuffer \<Rightarrow> nat \<Rightarrow> byte list \<Rightarrow> error + byte list" where
  "encodeChannels bitDepth buf i binaryBuf =
     forRange [0..<nat (bufChannels buf)] binaryBuf (\<lambda>j binaryBuf.
       let k = int i * bufChannels buf + int j in
       if 0 \<le> k \<and> k < int (length (Data buf)) then
         (case encodeSample bitDepth (Data buf ! nat k) of
            Inl err \<Rightarrow> Inl err
          | Inr bs \<Rightarrow> Inr (binaryBuf @ bs))
       else Inl PanicIndex)"

definition encodeFrames :: "int \<Rightarrow> IntBuffer \<Rightarrow> error + (byte list \<times> int)" where
  "encodeFrames bitDepth buf =
     forRange [0..<nat (NumFrames buf)] ([], 0) (\<lambda>i (binaryBuf, bufferFrames).
       case encodeChannels bitDepth buf i binaryBuf of
         Inl err \<Rightarrow> Inl err
       | Inr binaryBuf' \<Rightarrow> Inr (binaryBuf', bufferFrames + 1))"

subsection \<open>Write, WriteAt, WriteFrame\<close>

text \<open>
  \<open>addBuffer\<close> with \<open>pos = None\<close> appends at the sink's cursor and with \<open>pos = Some p\<close>
  writes at \<open>pcmChunkPos + p\<close>. The sink's error is assigned to \<^verbatim>\<open>err\<close> and the function
  then returns \<^verbatim>\<open>int64(n), nil\<close>.
\<close>

definition addBuffer :: "Encoder \<Rightarrow> IntBuffer option \<Rightarrow> int option \<Rightarrow> Encoder \<times> (error + int)" where
  "addBuffer e buf pos =
     (case buf of
        None \<Rightarrow> (e, Inl ErrNilBuffer)
      | Some b \<Rightarrow>
          (case encodeFrames (BitDepth e) b of
             Inl err \<Rightarrow> (e, Inl err)
           | Inr (binaryBuf, bufferFrames) \<Rightarrow>
               (case w e of
                  None \<Rightarrow> (e, Inl PanicNilWriter)
                | Some s \<Rightarrow>
                    (case (case pos of
                             None \<Rightarrow> sink_Write s binaryBuf
                           | Some p \<Rightarrow> sink_WriteAt s binaryBuf (pcmChunkPos e + p)) of
                       (s', n, err) \<Rightarrow>
                         (e\<lparr>w := Some s', frames := frames e + bufferFrames,
                            WrittenBytes := WrittenBytes e + n\<rparr>, Inr n)))))"

definition Write :: "Encoder \<Rightarrow> IntBuffer option \<Rightarrow> Encoder \<times> error option" where
  "Write e buf =
     andThen (writeSetup e) (\<lambda>e.
       case addBuffer e buf None of
         (e', Inl err) \<Rightarrow> (e', Some err)
       | (e', Inr n) \<Rightarrow> (e', None))"

definition WriteAt :: "Encoder \<Rightarrow> IntBuffer option \<Rightarrow> int \<Rightarrow> Encoder \<times> (error + int)" where
  "WriteAt e buf pos =
     (case writeSetup e of
        (e', Some err) \<Rightarrow> (e', Inl err)
      | (e', None) \<Rightarrow> addBuffer e' buf (Some pos))"

text \<open>
  \<open>WriteFrame\<close> drops the error of \<open>writeHeader\<close> (which returns before its first write
  when the writer is nil, so it does not panic), does not record \<open>pcmChunkPos\<close>, and counts
  one frame per call, before the value is written.
\<close>

definition WriteFrame :: "Encoder \<Rightarrow> go_value \<Rightarrow> Encoder \<times> error option" where
  "WriteFrame e0 val =
     (let e = (if \<not> wroteHeader e0 then fst (writeHeader e0) else e0) in
      andThen
        (if \<not> pcmChunkStarted e then
           andThen (wrapping ''error encoding sound header'' (AddLE e DataFormatID)) (\<lambda>e.
             let e = e\<lparr>pcmChunkStarted := True\<rparr>;
                 e = e\<lparr>pcmChunkSizePos := WrittenBytes e\<rparr>
             in wrapping ''when writing wav data chunk size header'' (AddLE e (GoUint32 42)))
         else (e, None))
        (\<lambda>e. AddLE (e\<lparr>frames := frames e + 1\<rparr>) val))"

subsection \<open>Metadata and Close\<close>

definition w_Seek :: "Encoder \<Rightarrow> int \<Rightarrow> int \<Rightarrow> Encoder \<times> error option" where
  "w_Seek e off whence =
     (case w e of
        None \<Rightarrow> (e, Some PanicNilWriter)
      | Some s \<Rightarrow> (case sink_Seek s off whence of (s', err) \<Rightarrow> (e\<lparr>w := Some s'\<rparr>, err)))"

definition w_Sync :: "Encoder \<Rightarrow> Encoder \<times> error option" where
  "w_Sync e =
     (case w e of
        None \<Rightarrow> (e, None)
      | Some s \<Rightarrow>
          if is_os_file s then (case sink_Sync s of (s', err) \<Rightarrow> (e\<lparr>w := Some s'\<rparr>, err))
          else (e, None))"

text \<open>
  Modelled from the spec: \<^verbatim>\<open>encodeInfoChunk\<close> and the type \<^verbatim>\<open>Metadata\<close> are declared in
  other files of the package; the spec has the metadata encoder return ``an opaque byte
  blob''. The metadata of the encoder is given by that blob, and no metadata encodes to no
  bytes.
\<close>

definition encodeInfoChunk :: "Encoder \<Rightarrow> byte list" where
  "encodeInfoChunk e = (case Metadata e of None \<Rightarrow> [] | Some m \<Rightarrow> m)"

definition writeMetadata :: "Encoder \<Rightarrow> Encoder \<times> error option" where
  "writeMetadata e0 =
     (let chunkData = encodeInfoChunk e0 in
      andThen (wrapping ''failed to write the LIST chunk ID'' (AddBE e0 CIDList)) (\<lambda>e.
      andThen (wrapping ''failed to write the LIST chunk size''
                 (AddLE e (GoUint32 (of_nat (length chunkData))))) (\<lambda>e.
      AddBE e (GoBytes chunkData))))"

definition Close :: "Encoder \<Rightarrow> Encoder \<times> error option" where
  "Close e0 =
     (if w e0 = None then (e0, None)
      else
        andThen (if Metadata e0 \<noteq> None
                 then wrapping ''failed to write metadata'' (writeMetadata e0)
                 else (e0, None)) (\<lambda>e.
        andThen (w_Seek e 4 0) (\<lambda>e.
        andThen (wrapping ''when writing the total written bytes''
                   (AddLE e (GoUint32 (word_of_int (WrittenBytes e) - 8)))) (\<lambda>e.
        andThen (if pcmChunkSizePos e > 0 then
                   andThen (w_Seek e (pcmChunkSizePos e) 0) (\<lambda>e.
                     wrapping ''when writing wav data chunk size header''
                       (AddLE e (GoUint32
                          (word_of_int (go_div (BitDepth e) 8 * NumChans e * frames e)))))
                 else (e, None)) (\<lambda>e.
        andThen (w_Seek e 0 2) (\<lambda>e.
        w_Sync e))))))"

section \<open>Notions used to state the properties\<close>

subsection \<open>Bit depths, encoded bytes, size fields\<close>

text \<open>
  The bit depths the encoder supports; the bytes one sample, one frame and one buffer
  encode to (empty where the encoding fails); the bytes a positioned write leaves in the
  sink (none when the absolute offset is negative: the sink refuses it).
\<close>

definition validDepth :: "int \<Rightarrow> bool" where
  "validDepth bitDepth = (bitDepth = 8 \<or> bitDepth = 16 \<or> bitDepth = 24 \<or> bitDepth = 32)"

definition sampleBytes :: "int \<Rightarrow> 64 word \<Rightarrow> byte list" where
  "sampleBytes bitDepth v = (case encodeSample bitDepth v of Inl err \<Rightarrow> [] | Inr bs \<Rightarrow> bs)"

definition frameBytes :: "int \<Rightarrow> IntBuffer \<Rightarrow> nat \<Rightarrow> byte list" where
  "frameBytes bitDepth buf i =
     concat (map (\<lambda>j. sampleBytes bitDepth (Data buf ! (i * nat (bufChannels buf) + j)))
                 [0..<nat (bufChannels buf)])"

definition payload :: "int \<Rightarrow> IntBuffer \<Rightarrow> byte list" where
  "payload bitDepth buf =
     (case encodeFrames bitDepth buf of Inl err \<Rightarrow> [] | Inr (bytes, n) \<Rightarrow> bytes)"


text \<open>
  The bytes and the cursor of the encoder's sink, and the little-endian reading of the
  32-bit field at an offset (\<^verbatim>\<open>binary.LittleEndian.Uint32\<close>).
\<close>

definition sinkBytes :: "Encoder \<Rightarrow> byte list" where
  "sinkBytes e = (case w e of None \<Rightarrow> [] | Some s \<Rightarrow> content s)"

definition sinkCursor :: "Encoder \<Rightarrow> nat" where
  "sinkCursor e = (case w e of None \<Rightarrow> 0 | Some s \<Rightarrow> cursor s)"

definition Uint32 :: "byte list \<Rightarrow> 32 word" where
  "Uint32 b = ucast (b ! 0) OR push_bit 8 (ucast (b ! 1)) OR push_bit 16 (ucast (b ! 2))
                OR push_bit 24 (ucast (b ! 3))"

definition field32 :: "Encoder \<Rightarrow> nat \<Rightarrow> 32 word" where
  "field32 e off = (case w e of None \<Rightarrow> 0 | Some s \<Rightarrow> Uint32 (take 4 (drop off (content s))))"

subsection \<open>A sink that does not fail\<close>

text \<open>
  \<open>healthy\<close>: the encoder has a sink and no operation of it is scheduled to fail.
  \<open>sizable\<close>: a value \<^verbatim>\<open>encoding/binary\<close> can encode. \<open>appended s p\<close> is the sink after
  a sequential write of \<open>p\<close> that succeeds, \<open>appendAll\<close> after a sequence of values written
  little-endian.
\<close>

definition sink_ok :: "sink option \<Rightarrow> bool" where
  "sink_ok x = (case x of None \<Rightarrow> False | Some s \<Rightarrow> script s = [])"

definition healthy :: "Encoder \<Rightarrow> bool" where
  "healthy e = sink_ok (w e)"

definition sizable :: "go_value \<Rightarrow> bool" where
  "sizable v = (v \<noteq> GoNotFixedSize)"

definition appended :: "sink \<Rightarrow> byte list \<Rightarrow> sink" where
  "appended s p = (store s (cursor s) p)\<lparr>cursor := cursor s + length p\<rparr>"

definition appendAll :: "sink \<Rightarrow> go_value list \<Rightarrow> sink" where
  "appendAll s vs = foldl (\<lambda>s v. appended s (the (binary_bytes LittleEndian v))) s vs"

text \<open>
  The eleven fields of the header in the order \<open>writeHeader\<close> writes them; an encoder on
  which nothing has happened yet (\<open>fresh\<close>) and one that has emitted the header and opened
  the data chunk from there (\<open>opened\<close>: the placeholder is at offset 40); the
  configuration, which no call changes.
\<close>

definition headerFields :: "Encoder \<Rightarrow> go_value list" where
  "headerFields e =
     [RiffID, GoUint32 42, WavFormatID, FmtID, GoUint32 16,
      GoUint16 (word_of_int (WavAudioFormat e)),
      GoUint16 (word_of_int (NumChans e)),
      GoUint32 (word_of_int (SampleRate e)),
      GoUint32 (word_of_int (SampleRate e * blockAlign e)),
      GoUint16 (word_of_int (blockAlign e)),
      GoUint16 (word_of_int (BitDepth e))]"

definition fresh :: "Encoder \<Rightarrow> bool" where
  "fresh e = (healthy e \<and> \<not> wroteHeader e \<and> \<not> pcmChunkStarted e
              \<and> WrittenBytes e = 0 \<and> pcmChunkSizePos e = 0 \<and> frames e = 0)"

definition opened :: "Encoder \<Rightarrow> bool" where
  "opened e = (healthy e \<and> wroteHeader e \<and> pcmChunkStarted e \<and> pcmChunkSizePos e = 40)"

definition sameConfig :: "Encoder \<Rightarrow> Encoder \<Rightarrow> bool" where
  "sameConfig e e' = (SampleRate e' = SampleRate e \<and> BitDepth e' = BitDepth e
                      \<and> NumChans e' = NumChans e \<and> WavAudioFormat e' = WavAudioFormat e
                      \<and> Metadata e' = Metadata e)"

text \<open>
  What \<open>Close\<close> does to a sink that does not fail: the metadata chunk (12 bytes and the
  payload), the RIFF size at offset 4, the data-chunk size at the placeholder when the data
  chunk was opened, and the cursor back at the end.
\<close>

definition metadataSize :: "Encoder \<Rightarrow> int" where
  "metadataSize e = (case Metadata e of None \<Rightarrow> 0 | Some m \<Rightarrow> 4 + 4 + int (length m))"

definition metadataSink :: "Encoder \<Rightarrow> sink \<Rightarrow> sink" where
  "metadataSink e s =
     (case Metadata e of
        None \<Rightarrow> s
      | Some m \<Rightarrow>
          appended (appended (appended s [0x4C, 0x49, 0x53, 0x54])
                      (PutUint32 (of_nat (length m)))) m)"

definition riffSize :: "Encoder \<Rightarrow> 32 word" where
  "riffSize e = word_of_int (WrittenBytes e + metadataSize e) - 8"

definition dataSize :: "Encoder \<Rightarrow> 32 word" where
  "dataSize e = word_of_int (go_div (BitDepth e) 8 * NumChans e * frames e)"

definition closedSink :: "Encoder \<Rightarrow> sink" where
  "closedSink e =
     (let s1 = metadataSink e (the (w e));
          s2 = appended (s1\<lparr>cursor := 4\<rparr>) (PutUint32 (riffSize e));
          s3 = (if 0 < pcmChunkSizePos e
                then appended (s2\<lparr>cursor := nat (pcmChunkSizePos e)\<rparr>) (PutUint32 (dataSize e))
                else s2)
      in s3\<lparr>cursor := length (content s3)\<rparr>)"

text \<open>A result that is not a panic, on an encoder that has a sink.\<close>

definition proper :: "Encoder \<times> error option \<Rightarrow> bool" where
  "proper r = (w (fst r) \<noteq> None \<and> (case snd r of None \<Rightarrow> True | Some err \<Rightarrow> \<not> is_panic err))"

text \<open>Neither counter went down from \<open>e\<close> to \<open>e'\<close>.\<close>

definition countersGrow :: "Encoder \<Rightarrow> Encoder \<Rightarrow> bool" where
  "countersGrow e e' = (WrittenBytes e \<le> WrittenBytes e' \<and> frames e \<le> frames e')"

subsection \<open>Sequences of calls\<close>



fun writeFrames :: "Encoder \<Rightarrow> go_value list \<Rightarrow> Encoder" where
  "writeFrames e [] = e"
| "writeFrames e (v # vs) = writeFrames (fst (WriteFrame e v)) vs"

subsection \<open>The history of the sink\<close>

text \<open>
  \<open>overwrites e off n\<close>: how many writes that reached the sink put at least one byte
  into the \<open>n\<close> bytes at offset \<open>off\<close>. \<open>newWrites e e'\<close>: the writes that reached the sink
  between the encoder states \<open>e\<close> and \<open>e'\<close>, latest first.
\<close>

definition newWrites :: "Encoder \<Rightarrow> Encoder \<Rightarrow> (nat \<times> byte list) list" where
  "newWrites e e' =
     (case (w e, w e') of
        (Some s, Some s') \<Rightarrow> take (length (written s') - length (written s)) (written s')
      | _ \<Rightarrow> [])"

definition overlaps :: "nat \<Rightarrow> nat \<Rightarrow> nat \<times> byte list \<Rightarrow> bool" where
  "overlaps off n wr = (snd wr \<noteq> [] \<and> fst wr < off + n \<and> off < fst wr + length (snd wr))"

definition overwrites :: "Encoder \<Rightarrow> nat \<Rightarrow> nat \<Rightarrow> nat" where
  "overwrites e off n =
     (case w e of None \<Rightarrow> 0 | Some s \<Rightarrow> length (filter (overlaps off n) (written s)))"

subsection \<open>Concrete inputs\<close>

text \<open>
  Two buffers of two stereo frames; an empty sink that never fails, one that fails on its
  14th operation (the write of the first payload) and one that fails on its 12th (the
  \<^verbatim>\<open>data\<close> tag), each without writing a byte; a new encoder of 16 bits and two channels,
  the same after one \<open>Write\<close>, after one \<open>Write\<close> and one \<open>Close\<close>, and after one \<open>Write\<close>
  with three bytes of metadata attached.
\<close>

definition stereoPair :: IntBuffer where
  "stereoPair = \<lparr>Format = Some \<lparr>NumChannels = 2, SampleRate_fmt = 44100\<rparr>,
                  Data = [1, 2, 0x0304, -2], SourceBitDepth = 16\<rparr>"


definition freshSink :: sink where
  "freshSink = \<lparr>content = [], cursor = 0, script = [], written = [], is_os_file = False\<rparr>"

definition payloadFailingSink :: sink where
  "payloadFailingSink =
     freshSink\<lparr>script := [None, None, None, None, None, None, None, None, None, None, None,
                          None, None, Some (0, 7)]\<rparr>"

definition chunkFailingSink :: sink where
  "chunkFailingSink =
     freshSink\<lparr>script := [None, None, None, None, None, None, None, None, None, None, None,
                          Some (0, 7)]\<rparr>"

definition newEncoder :: Encoder where
  "newEncoder = NewEncoder (Some freshSink) 44100 16 2 1"

definition writtenOnce :: Encoder where
  "writtenOnce = fst (Write newEncoder (Some stereoPair))"

definition closedOnce :: Encoder where
  "closedOnce = fst (Close writtenOnce)"

definition taggedOnce :: Encoder where
  "taggedOnce =
     fst (Write ((NewEncoder (Some freshSink) 44100 16 2 1)\<lparr>Metadata := Some [1, 2, 3]\<rparr>)
            (Some stereoPair))"

section \<open>Sample encoding\<close>

subsection \<open>The bytes of one sample\<close>

lemma not_ffffff: "(- 16777216 :: 32 word) = push_bit 24 (- 1)"
  by (simp add: push_bit_eq_mult)

lemma bit_not_ffffff: "bit (- 16777216 :: 32 word) m \<longleftrightarrow> 24 \<le> m \<and> m < 32"
  unfolding not_ffffff by (auto simp add: bit_simps)

lemma sext_low:
  "m < 24 \<Longrightarrow>
   bit (if n AND 0x800000 \<noteq> 0 then n OR NOT 0xffffff else (n :: 32 word)) m = bit n m"
  using bit_not_ffffff [of m] by (auto simp add: bit_or_iff)

lemma Int24_nth:
  assumes "k < 3"
  shows "Int32toInt24LEBytes (ucast (v :: 64 word)) ! k = ucast (drop_bit (8 * k) v)"
proof -
  define n :: "32 word" where "n = ucast v"
  define n' where "n' = (if n AND 0x800000 \<noteq> 0 then n OR NOT 0xffffff else n)"
  have low: "bit n' m = bit v m" if "m < 24" for m
    using that sext_low [of m n] by (simp add: n'_def n_def bit_ucast_iff)
  have bytes: "Int32toInt24LEBytes (ucast v) =
      [ucast n', ucast (signed_drop_bit 8 n'), ucast (signed_drop_bit 16 n')]"
    by (simp only: Int32toInt24LEBytes_def Let_def n'_def n_def)
  have b0: "(ucast n' :: byte) = ucast (drop_bit 0 v)"
    by (rule bit_word_eqI) (auto simp: bit_ucast_iff low)
  have b1: "(ucast (signed_drop_bit 8 n') :: byte) = ucast (drop_bit 8 v)"
    by (rule bit_word_eqI) (auto simp: bit_ucast_iff bit_signed_drop_bit_iff bit_drop_bit_eq low)
  have b2: "(ucast (signed_drop_bit 16 n') :: byte) = ucast (drop_bit 16 v)"
    by (rule bit_word_eqI) (auto simp: bit_ucast_iff bit_signed_drop_bit_iff bit_drop_bit_eq low)
  from assms consider "k = 0" | "k = 1" | "k = 2" by linarith
  then show ?thesis
    by cases (simp_all add: bytes b0 b1 b2)
qed

lemma PutUint16_nth:
  assumes "k < 2"
  shows "PutUint16 (ucast (v :: 64 word)) ! k = ucast (drop_bit (8 * k) v)"
proof -
  have b0: "(ucast (ucast v :: 16 word) :: byte) = ucast (drop_bit 0 v)"
    by (rule bit_word_eqI) (auto simp: bit_ucast_iff)
  have b1: "(ucast (drop_bit 8 (ucast v :: 16 word)) :: byte) = ucast (drop_bit 8 v)"
    by (rule bit_word_eqI) (auto simp: bit_ucast_iff bit_drop_bit_eq)
  from assms consider "k = 0" | "k = 1" by linarith
  then show ?thesis
    by cases (simp_all add: PutUint16_def b0 b1)
qed

lemma PutUint32_nth:
  assumes "k < 4"
  shows "PutUint32 (ucast (v :: 64 word)) ! k = ucast (drop_bit (8 * k) v)"
proof -
  have b0: "(ucast (ucast v :: 32 word) :: byte) = ucast (drop_bit 0 v)"
    by (rule bit_word_eqI) (auto simp: bit_ucast_iff)
  have b: "(ucast (drop_bit m (ucast v :: 32 word)) :: byte) = ucast (drop_bit m v)" if "m \<le> 24" for m
    using that by (intro bit_word_eqI) (auto simp: bit_ucast_iff bit_drop_bit_eq)
  from assms consider "k = 0" | "k = 1" | "k = 2" | "k = 3" by linarith
  then show ?thesis
    by cases (simp_all add: PutUint32_def b0 b)
qed

lemma length_PutUint16 [simp]: "length (PutUint16 x) = 2"
  by (simp add: PutUint16_def)

lemma length_PutUint32 [simp]: "length (PutUint32 x) = 4"
  by (simp add: PutUint32_def)

lemma length_Int32toInt24LEBytes [simp]: "length (Int32toInt24LEBytes x) = 3"
  by (simp add: Int32toInt24LEBytes_def Let_def)

lemma encodeSample_valid:
  "validDepth bitDepth \<Longrightarrow> encodeSample bitDepth v = Inr (sampleBytes bitDepth v)"
  by (auto simp: validDepth_def sampleBytes_def encodeSample_def)

lemma length_sampleBytes:
  "validDepth bitDepth \<Longrightarrow> length (sampleBytes bitDepth v) = nat (bitDepth div 8)"
  by (auto simp: validDepth_def sampleBytes_def encodeSample_def)

lemma sampleBytes_nth:
  assumes "validDepth bitDepth" and "k < nat (bitDepth div 8)"
  shows "sampleBytes bitDepth v ! k = ucast (drop_bit (8 * k) v)"
  using assms
  by (auto simp: validDepth_def sampleBytes_def encodeSample_def
        PutUint16_nth PutUint32_nth Int24_nth)

subsection \<open>The loops over frames and channels\<close>

lemma forRange_append:
  "(\<And>i a. i \<in> set is \<Longrightarrow> body i a = Inr (a @ g i)) \<Longrightarrow>
   forRange is a body = Inr (a @ concat (map g is))"
  by (induction "is" arbitrary: a) simp_all

lemma forRange_count:
  "(\<And>i a n. i \<in> set is \<Longrightarrow> body i (a, n) = Inr (a @ g i, n + 1)) \<Longrightarrow>
   forRange is (a, n) body = Inr (a @ concat (map g is), n + int (length is))"
  by (induction "is" arbitrary: a n) simp_all

lemma encodeChannels_valid:
  assumes "validDepth bitDepth"
    and "(i + 1) * nat (bufChannels buf) \<le> length (Data buf)"
  shows "encodeChannels bitDepth buf i binaryBuf = Inr (binaryBuf @ frameBytes bitDepth buf i)"
  unfolding encodeChannels_def frameBytes_def
proof (rule forRange_append)
  fix j a
  let ?nc = "nat (bufChannels buf)"
  assume "j \<in> set [0..<?nc]"
  then have j: "j < ?nc" by simp
  then have "int ?nc = bufChannels buf" by simp
  then have e: "int i * bufChannels buf + int j = int (i * ?nc + j)"
    by (metis of_nat_add of_nat_mult)
  have "i * ?nc + j < (i + 1) * ?nc" using j by simp
  then have l: "i * ?nc + j < length (Data buf)" using assms(2) by linarith
  show "(let k = int i * bufChannels buf + int j in
         if 0 \<le> k \<and> k < int (length (Data buf)) then
           (case encodeSample bitDepth (Data buf ! nat k) of
              Inl err \<Rightarrow> Inl err
            | Inr bs \<Rightarrow> Inr (a @ bs))
         else Inl PanicIndex) = Inr (a @ sampleBytes bitDepth (Data buf ! (i * ?nc + j)))"
    unfolding e Let_def using l
    by (simp add: encodeSample_valid [OF assms(1)] del: of_nat_add of_nat_mult)
qed

lemma go_div_nonneg: "0 \<le> a \<Longrightarrow> 0 < b \<Longrightarrow> go_div a b = a div b"
  by (cases "a = 0") (simp_all add: go_div_def)

lemma NumFrames_nonneg:
  assumes "0 \<le> bufChannels buf"
  shows "NumFrames buf =
           (case Format buf of None \<Rightarrow> 0
            | Some f \<Rightarrow> if NumChannels f = 0 then int (length (Data buf))
                        else int (length (Data buf)) div NumChannels f)"
  using assms
  by (auto simp: NumFrames_def bufChannels_def Let_def go_div_nonneg split: option.splits)

lemma frames_in_range:
  assumes "i < nat (NumFrames buf)"
  shows "(i + 1) * nat (bufChannels buf) \<le> length (Data buf)"
proof (cases "0 < bufChannels buf")
  case False
  then show ?thesis by simp
next
  case True
  then obtain f where f: "Format buf = Some f" and pos: "0 < NumChannels f"
    by (auto simp: bufChannels_def split: option.splits)
  let ?nc = "nat (NumChannels f)"
  have "NumFrames buf = int (length (Data buf)) div NumChannels f"
    using f pos by (simp add: NumFrames_def go_div_nonneg)
  also have "\<dots> = int (length (Data buf) div ?nc)"
    using pos by (simp add: zdiv_int)
  finally have "i + 1 \<le> length (Data buf) div ?nc" using assms by simp
  then have "(i + 1) * ?nc \<le> (length (Data buf) div ?nc) * ?nc"
    by (rule mult_le_mono1)
  also have "\<dots> \<le> length (Data buf)" by simp
  finally show ?thesis using f by (simp add: bufChannels_def)
qed

lemma encodeFrames_valid:
  assumes "validDepth bitDepth"
  shows "encodeFrames bitDepth buf =
           Inr (concat (map (frameBytes bitDepth buf) [0..<nat (NumFrames buf)]),
                int (nat (NumFrames buf)))"
proof -
  have "forRange [0..<nat (NumFrames buf)] ([], 0)
          (\<lambda>i (binaryBuf, bufferFrames).
             case encodeChannels bitDepth buf i binaryBuf of
               Inl err \<Rightarrow> Inl err
             | Inr binaryBuf' \<Rightarrow> Inr (binaryBuf', bufferFrames + 1))
        = Inr ([] @ concat (map (frameBytes bitDepth buf) [0..<nat (NumFrames buf)]),
               0 + int (length [0..<nat (NumFrames buf)]))"
  proof (rule forRange_count)
    fix i a n
    assume "i \<in> set [0..<nat (NumFrames buf)]"
    then have "i < nat (NumFrames buf)" by simp
    from encodeChannels_valid [OF assms frames_in_range [OF this]]
    show "(case (a, n) of
            (binaryBuf, bufferFrames) \<Rightarrow>
              case encodeChannels bitDepth buf i binaryBuf of
                Inl err \<Rightarrow> Inl err
              | Inr binaryBuf' \<Rightarrow> Inr (binaryBuf', bufferFrames + 1))
          = Inr (a @ frameBytes bitDepth buf i, n + 1)"
      by simp
  qed
  then show ?thesis by (simp add: encodeFrames_def)
qed

subsection \<open>Where each byte stands\<close>

lemma concat_uniform_length:
  "(\<And>x. x \<in> set xs \<Longrightarrow> length (g x) = L) \<Longrightarrow> length (concat (map g xs)) = length xs * L"
  by (induction xs) simp_all

lemma concat_uniform_nth:
  "(\<And>x. x \<in> set xs \<Longrightarrow> length (g x) = L) \<Longrightarrow> m < length xs \<Longrightarrow> k < L \<Longrightarrow>
   concat (map g xs) ! (m * L + k) = g (xs ! m) ! k"
proof (induction xs arbitrary: m)
  case Nil
  then show ?case by simp
next
  case (Cons x xs)
  show ?case
  proof (cases m)
    case 0
    with Cons.prems show ?thesis by (simp add: nth_append)
  next
    case (Suc m')
    have "length (g x) = L" using Cons.prems(1) by simp
    moreover have "concat (map g xs) ! (m' * L + k) = g (xs ! m') ! k"
      using Cons.prems Suc by (intro Cons.IH) auto
    ultimately show ?thesis using Suc by (simp add: nth_append add.assoc)
  qed
qed


lemma Uint32_PutUint32: "Uint32 (PutUint32 x) = x"
proof (rule bit_word_eqI)
  fix n
  assume "n < LENGTH(32)"
  then consider "n < 8" | "8 \<le> n \<and> n < 16" | "16 \<le> n \<and> n < 24" | "24 \<le> n \<and> n < 32"
    by fastforce
  then show "bit (Uint32 (PutUint32 x)) n = bit x n"
    by cases
      (auto simp: Uint32_def PutUint32_def bit_or_iff bit_push_bit_iff bit_ucast_iff
         bit_drop_bit_eq)
qed

lemma length_frameBytes:
  "validDepth bitDepth \<Longrightarrow>
   length (frameBytes bitDepth buf i) = nat (bufChannels buf) * nat (bitDepth div 8)"
  unfolding frameBytes_def
  by (subst concat_uniform_length [where L = "nat (bitDepth div 8)"])
     (simp_all add: length_sampleBytes)

lemma frameBytes_nth:
  assumes "validDepth bitDepth" and "j < nat (bufChannels buf)" and "k < nat (bitDepth div 8)"
  shows "frameBytes bitDepth buf i ! (j * nat (bitDepth div 8) + k) =
           ucast (drop_bit (8 * k) (Data buf ! (i * nat (bufChannels buf) + j)))"
proof -
  have "frameBytes bitDepth buf i ! (j * nat (bitDepth div 8) + k) =
          sampleBytes bitDepth (Data buf ! (i * nat (bufChannels buf) + [0..<nat (bufChannels buf)] ! j)) ! k"
    unfolding frameBytes_def
    by (rule concat_uniform_nth) (use assms in \<open>simp_all add: length_sampleBytes\<close>)
  then show ?thesis using assms by (simp add: sampleBytes_nth)
qed

text \<open>
  C7. For a buffer of \<open>N\<close> frames and \<open>C\<close> channels and a bit depth of 8, 16, 24 or 32, the
  encoding step succeeds, counts \<open>N\<close> frames and produces \<open>N * C * bitDepth / 8\<close> bytes;
  byte \<open>k\<close> of the sample of frame \<open>i\<close>, channel \<open>j\<close> stands at offset
  \<open>(i * C + j) * bitDepth / 8 + k\<close> and is bits \<open>8k .. 8k+7\<close> of the sample (frames in order,
  channels in order within a frame, low byte first). At 24 bits the sample 1 is encoded
  as \<open>01 00 00\<close>.
\<close>

theorem sample_encoding_layout:
  assumes "bitDepth \<in> {8, 16, 24, 32}" and "0 \<le> bufChannels buf"
  shows "\<exists>bytes. encodeFrames bitDepth buf = Inr (bytes, NumFrames buf)
           \<and> int (length bytes) = NumFrames buf * bufChannels buf * bitDepth div 8
           \<and> (\<forall>i < nat (NumFrames buf). \<forall>j < nat (bufChannels buf). \<forall>k < nat (bitDepth div 8).
                 bytes ! ((i * nat (bufChannels buf) + j) * nat (bitDepth div 8) + k)
                   = ucast (drop_bit (8 * k) (Data buf ! (i * nat (bufChannels buf) + j))))
           \<and> encodeFrames 24 \<lparr>Format = Some \<lparr>NumChannels = 1, SampleRate_fmt = rate\<rparr>,
                               Data = [1], SourceBitDepth = depth\<rparr>
               = Inr ([0x01, 0x00, 0x00], 1)"
proof -
  let ?N = "nat (NumFrames buf)" and ?C = "nat (bufChannels buf)" and ?B = "nat (bitDepth div 8)"
  let ?bytes = "concat (map (frameBytes bitDepth buf) [0..<?N])"
  from assms(1) have vd: "validDepth bitDepth" by (auto simp: validDepth_def)
  have N: "0 \<le> NumFrames buf"
    using assms(2)
    by (auto simp: NumFrames_nonneg bufChannels_def pos_imp_zdiv_nonneg_iff split: option.splits)
  have enc: "encodeFrames bitDepth buf = Inr (?bytes, NumFrames buf)"
    using encodeFrames_valid [OF vd, of buf] N by simp
  have len: "length ?bytes = ?N * (?C * ?B)"
    by (subst concat_uniform_length [where L = "?C * ?B"]) (simp_all add: length_frameBytes vd)
  have B8: "int ?B * 8 = bitDepth" using assms(1) by auto
  have "int (length ?bytes) = NumFrames buf * bufChannels buf * int ?B"
    using len N assms(2) by simp
  also have "\<dots> = NumFrames buf * bufChannels buf * bitDepth div 8"
    using B8 by (metis mult.assoc nonzero_mult_div_cancel_right zero_neq_numeral)
  finally have l: "int (length ?bytes) = NumFrames buf * bufChannels buf * bitDepth div 8" .
  have nth: "?bytes ! ((i * ?C + j) * ?B + k) = ucast (drop_bit (8 * k) (Data buf ! (i * ?C + j)))"
    if "i < ?N" "j < ?C" "k < ?B" for i j k
  proof -
    have "j * ?B + k < ?C * ?B"
    proof -
      have "j * ?B + k < (j + 1) * ?B" using that(3) by simp
      also have "\<dots> \<le> ?C * ?B" using that(2) by (intro mult_le_mono1) simp
      finally show ?thesis .
    qed
    then have "?bytes ! (i * (?C * ?B) + (j * ?B + k)) = frameBytes bitDepth buf ([0..<?N] ! i) ! (j * ?B + k)"
      using that(1) by (intro concat_uniform_nth) (simp_all add: length_frameBytes vd)
    moreover have "i * (?C * ?B) + (j * ?B + k) = (i * ?C + j) * ?B + k"
      by (simp add: algebra_simps)
    ultimately show ?thesis using that by (simp add: frameBytes_nth vd)
  qed
  have ex: "encodeFrames 24 \<lparr>Format = Some \<lparr>NumChannels = 1, SampleRate_fmt = rate\<rparr>,
                               Data = [1], SourceBitDepth = depth\<rparr>
               = Inr ([0x01, 0x00, 0x00], 1)"
    by (simp add: encodeFrames_def encodeChannels_def encodeSample_def Int32toInt24LEBytes_def
          NumFrames_def bufChannels_def go_div_def Let_def)
  from enc l nth ex show ?thesis by blast
qed

theorem sample_encoding_layout_witness:
  "(16 :: int) \<in> {8, 16, 24, 32} \<and> 0 \<le> bufChannels stereoPair
   \<and> NumFrames stereoPair = 2
   \<and> (\<exists>bytes. encodeFrames 16 stereoPair = Inr (bytes, 2) \<and> length bytes = 8
         \<and> bytes ! 4 = 0x04 \<and> bytes ! 5 = 0x03)"
proof -
  have h1: "(16 :: int) \<in> {8, 16, 24, 32}" by simp
  have h2: "0 \<le> bufChannels stereoPair" by (simp add: bufChannels_def stereoPair_def)
  have n: "NumFrames stereoPair = 2" by (simp add: NumFrames_def stereoPair_def go_div_def)
  have c: "bufChannels stereoPair = 2" by (simp add: bufChannels_def stereoPair_def)
  from sample_encoding_layout [OF h1 h2] obtain bytes where
    e: "encodeFrames 16 stereoPair = Inr (bytes, NumFrames stereoPair)"
    and l: "int (length bytes) = NumFrames stereoPair * bufChannels stereoPair * 16 div 8"
    and b: "\<forall>i < nat (NumFrames stereoPair). \<forall>j < nat (bufChannels stereoPair). \<forall>k < nat (16 div 8).
              bytes ! ((i * nat (bufChannels stereoPair) + j) * nat (16 div 8) + k)
                = ucast (drop_bit (8 * k) (Data stereoPair ! (i * nat (bufChannels stereoPair) + j)))"
    by blast
  have d: "Data stereoPair ! 2 = 0x0304" by (simp add: stereoPair_def)
  from b [rule_format, of 1 0 0] have b4: "bytes ! 4 = 0x04"
    unfolding n c by (simp add: d)
  from b [rule_format, of 1 0 1] have b5: "bytes ! 5 = 0x03"
    unfolding n c by (simp add: d drop_bit_eq_div)
  from l have "length bytes = 8" by (simp add: n c)
  with h1 h2 n e b4 b5 show ?thesis by (auto simp: n)
qed

section \<open>Writing into the sink's bytes\<close>

text \<open>
  \<open>put_at\<close> by length and by index; a write leaves its bytes at its offset, leaves the
  bytes before it alone, and two writes to ranges that do not overlap commute.
\<close>

lemma length_put_at:
  "length (put_at c off bs) = (if bs = [] then length c else max (length c) (off + length bs))"
  by (auto simp: put_at_def)

lemma put_at_split:
  assumes "bs \<noteq> []"
  shows "\<exists>pre. length pre = off
           \<and> put_at c off bs = pre @ bs @ drop (off + length bs) c
           \<and> (\<forall>i < off. pre ! i = (if i < length c then c ! i else 0))"
proof (intro exI conjI allI impI)
  let ?pre = "take off c @ replicate (off - length c) 0"
  show "length ?pre = off" by simp
  show "put_at c off bs = ?pre @ bs @ drop (off + length bs) c"
    using assms by (simp add: put_at_def)
  show "?pre ! i = (if i < length c then c ! i else 0)" if "i < off" for i
  proof (cases "i < length c")
    case True
    with that show ?thesis by (simp add: nth_append)
  next
    case False
    with that have "i - length c < off - length c" by simp
    with False that show ?thesis by (simp add: nth_append)
  qed
qed

lemma nth_put_at:
  assumes "i < length (put_at c off bs)"
  shows "put_at c off bs ! i =
           (if off \<le> i \<and> i < off + length bs then bs ! (i - off)
            else if i < length c then c ! i else 0)"
proof (cases "bs = []")
  case True
  with assms show ?thesis by (auto simp: put_at_def)
next
  case False
  then obtain pre where len: "length pre = off"
    and eq: "put_at c off bs = pre @ bs @ drop (off + length bs) c"
    and pre: "\<forall>i < off. pre ! i = (if i < length c then c ! i else 0)"
    using put_at_split [of bs off c] by blast
  consider "i < off" | "off \<le> i \<and> i < off + length bs" | "off + length bs \<le> i"
    by linarith
  then show ?thesis
  proof cases
    case 1
    then show ?thesis using len pre by (simp add: eq nth_append)
  next
    case 2
    then have "i - off < length bs" by linarith
    with 2 show ?thesis using len by (simp add: eq nth_append)
  next
    case 3
    then have ic: "i < length c" using assms False by (simp add: length_put_at)
    from 3 have a: "\<not> i < off" and b: "\<not> i - off < length bs" by linarith+
    from 3 have k: "off + length bs + (i - off - length bs) = i" by linarith
    have "put_at c off bs ! i = drop (off + length bs) c ! (i - off - length bs)"
      using len a b by (simp add: eq nth_append)
    also have "\<dots> = c ! i" using ic k by simp
    finally show ?thesis using 3 ic by simp
  qed
qed

lemma take_drop_put_at_same:
  "take (length bs) (drop off (put_at c off bs)) = bs"
proof (cases "bs = []")
  case True
  then show ?thesis by simp
next
  case False
  have "drop off (put_at c off bs) = bs @ drop (off + length bs) c"
  proof -
    have "put_at c off bs = (take off c @ replicate (off - length c) 0) @ (bs @ drop (off + length bs) c)"
      using False by (simp add: put_at_def)
    moreover have "length (take off c @ replicate (off - length c) 0) = off" by simp
    ultimately show ?thesis by (metis append_eq_conv_conj)
  qed
  then show ?thesis by simp
qed

lemma take_drop_put_at_other:
  assumes "o1 + n \<le> o2" and "o1 + n \<le> length c"
  shows "take n (drop o1 (put_at c o2 bs)) = take n (drop o1 c)"
proof (rule nth_equalityI)
  show "length (take n (drop o1 (put_at c o2 bs))) = length (take n (drop o1 c))"
    using assms by (auto simp: length_put_at)
next
  fix i
  assume "i < length (take n (drop o1 (put_at c o2 bs)))"
  then have i: "i < n" by simp
  then have "o1 + i < length (put_at c o2 bs)" using assms by (auto simp: length_put_at)
  then show "take n (drop o1 (put_at c o2 bs)) ! i = take n (drop o1 c) ! i"
    using i assms by (simp add: nth_put_at)
qed


section \<open>Calls on a sink that does not fail\<close>

text \<open>
  On a sink with an empty script every operation succeeds; the calls of the encoder are
  then given by equations, used below to follow the encoder through whole runs.
\<close>

subsection \<open>The operations of the sink\<close>

lemma advance_ok: "script s = [] \<Longrightarrow> advance s = s"
  by (simp add: advance_def)

lemma fault_ok: "script s = [] \<Longrightarrow> fault s = None"
  by (simp add: fault_def)

lemma store_simps [simp]:
  "script (store s off bs) = script s"
  "cursor (store s off bs) = cursor s"
  "is_os_file (store s off bs) = is_os_file s"
  "content (store s off bs) = put_at (content s) off bs"
  "written (store s off bs) = (off, bs) # written s"
  by (simp_all add: store_def)

lemma appended_simps [simp]:
  "script (appended s p) = script s"
  "cursor (appended s p) = cursor s + length p"
  "is_os_file (appended s p) = is_os_file s"
  "content (appended s p) = put_at (content s) (cursor s) p"
  "written (appended s p) = (cursor s, p) # written s"
  by (simp_all add: appended_def)

lemma sink_Write_ok:
  "script s = [] \<Longrightarrow> sink_Write s p = (appended s p, int (length p), None)"
  by (simp add: sink_Write_def fault_ok advance_ok appended_def)



lemma sink_Seek_start:
  "script s = [] \<Longrightarrow> 0 \<le> off \<Longrightarrow> sink_Seek s off 0 = (s\<lparr>cursor := nat off\<rparr>, None)"
  by (simp add: sink_Seek_def fault_ok advance_ok)

lemma sink_Seek_end:
  "script s = [] \<Longrightarrow> sink_Seek s 0 2 = (s\<lparr>cursor := length (content s)\<rparr>, None)"
  by (simp add: sink_Seek_def fault_ok advance_ok)

lemma sink_Sync_ok: "script s = [] \<Longrightarrow> sink_Sync s = (s, None)"
  by (simp add: sink_Sync_def fault_ok advance_ok)

subsection \<open>binary.Size and binary.Write\<close>

lemma binary_bytes_sizable: "sizable v \<Longrightarrow> binary_bytes order v \<noteq> None"
  by (cases v; cases order) (simp_all add: sizable_def)

lemma binary_Size_bytes:
  "binary_bytes order v = Some bs \<Longrightarrow> binary_Size v = int (length bs)"
  by (cases v; cases order) auto

lemma binary_Size_sizable: "sizable v \<Longrightarrow> 0 \<le> binary_Size v"
  by (cases v) (simp_all add: sizable_def)

lemma andThen_ok [simp]: "andThen (e, None) f = f e"
  by (simp add: andThen_def)

lemma andThen_err [simp]: "andThen (e, Some err) f = (e, Some err)"
  by (simp add: andThen_def)

lemma wrapping_ok [simp]: "wrapping ctx (e, None) = (e, None)"
  by (simp add: wrapping_def)

lemma fst_wrapping [simp]: "fst (wrapping ctx r) = fst r"
  by (simp add: wrapping_def split: option.splits)

lemma snd_wrapping_None [simp]: "snd (wrapping ctx r) = None \<longleftrightarrow> snd r = None"
  by (simp add: wrapping_def split: option.splits)

lemma sink_ok_simps [simp]:
  "sink_ok (Some s) = (script s = [])"
  "\<not> sink_ok None"
  by (simp_all add: sink_ok_def)

lemma sink_ok_the [simp]: "sink_ok x \<Longrightarrow> script (the x) = []"
  by (cases x) simp_all

lemma healthy_w: "healthy e \<Longrightarrow> \<exists>s. w e = Some s \<and> script s = []"
  by (cases "w e") (simp_all add: healthy_def)

lemma binary_Write_ok:
  assumes "healthy e" and "sizable v"
  shows "binary_Write e order v =
           (e\<lparr>w := Some (appended (the (w e)) (the (binary_bytes order v)))\<rparr>, None)"
proof -
  from assms(2) obtain bs where bs: "binary_bytes order v = Some bs"
    using binary_bytes_sizable by blast
  from healthy_w [OF assms(1)] obtain s where s: "w e = Some s" "script s = []" by blast
  show ?thesis by (simp add: binary_Write_def bs s sink_Write_ok)
qed

lemma AddLE_ok:
  assumes "healthy e" and "sizable v"
  shows "AddLE e v =
           (e\<lparr>WrittenBytes := WrittenBytes e + binary_Size v,
              w := Some (appended (the (w e)) (the (binary_bytes LittleEndian v)))\<rparr>, None)"
  using assms by (simp add: AddLE_def binary_Write_ok healthy_def)

lemma AddBE_ok:
  assumes "healthy e" and "sizable v"
  shows "AddBE e v =
           (e\<lparr>WrittenBytes := WrittenBytes e + binary_Size v,
              w := Some (appended (the (w e)) (the (binary_bytes BigEndian v)))\<rparr>, None)"
  using assms by (simp add: AddBE_def binary_Write_ok healthy_def)

lemma sizable_simps [simp]:
  "sizable (GoUint8 a)" "sizable (GoInt16 b)" "sizable (GoUint16 b)" "sizable (GoInt32 c)"
  "sizable (GoUint32 c)" "sizable (GoBytes bs)" "\<not> sizable GoNotFixedSize"
  "sizable RiffID" "sizable WavFormatID" "sizable FmtID" "sizable DataFormatID" "sizable CIDList"
  by (simp_all add: sizable_def RiffID_def WavFormatID_def FmtID_def DataFormatID_def CIDList_def)

lemma w_Seek_start:
  assumes "healthy e" and "0 \<le> off"
  shows "w_Seek e off 0 = (e\<lparr>w := Some ((the (w e))\<lparr>cursor := nat off\<rparr>)\<rparr>, None)"
proof -
  from healthy_w [OF assms(1)] obtain s where s: "w e = Some s" "script s = []" by blast
  show ?thesis by (simp add: w_Seek_def s sink_Seek_start assms(2))
qed

lemma w_Seek_end:
  assumes "healthy e"
  shows "w_Seek e 0 2 =
           (e\<lparr>w := Some ((the (w e))\<lparr>cursor := length (content (the (w e)))\<rparr>)\<rparr>, None)"
proof -
  from healthy_w [OF assms] obtain s where s: "w e = Some s" "script s = []" by blast
  show ?thesis by (simp add: w_Seek_def s sink_Seek_end)
qed

lemma w_Sync_ok:
  assumes "healthy e"
  shows "w_Sync e = (e, None)"
proof -
  from healthy_w [OF assms] obtain s where s: "w e = Some s" "script s = []" by blast
  show ?thesis by (simp add: w_Sync_def s sink_Sync_ok)
qed

subsection \<open>Metadata and Close\<close>

lemma writeMetadata_ok:
  assumes "healthy e" and "Metadata e = Some m"
  shows "writeMetadata e =
           (e\<lparr>WrittenBytes := WrittenBytes e + metadataSize e,
              w := Some (metadataSink e (the (w e)))\<rparr>, None)"
  using assms
  by (simp add: writeMetadata_def encodeInfoChunk_def AddLE_ok AddBE_ok metadataSize_def
        metadataSink_def CIDList_def healthy_def)

lemma script_metadataSink [simp]: "script (metadataSink e s) = script s"
  by (simp add: metadataSink_def split: option.splits)

lemma is_os_file_metadataSink [simp]: "is_os_file (metadataSink e s) = is_os_file s"
  by (simp add: metadataSink_def split: option.splits)

lemma script_closedSink: "healthy e \<Longrightarrow> script (closedSink e) = []"
  by (simp add: closedSink_def Let_def healthy_def)

lemma Close_ok:
  assumes "healthy e"
  shows "Close e =
           (e\<lparr>WrittenBytes := WrittenBytes e + metadataSize e + 4
                               + (if 0 < pcmChunkSizePos e then 4 else 0),
              w := Some (closedSink e)\<rparr>, None)"
proof -
  from healthy_w [OF assms] obtain s where s: "w e = Some s" "script s = []" by blast
  show ?thesis
  proof (cases "Metadata e")
    case None
    then have [simp]: "metadataSink e s = s" "metadataSize e = 0"
      by (simp_all add: metadataSink_def metadataSize_def)
    show ?thesis using assms None s
      by (simp add: Close_def w_Seek_start w_Seek_end w_Sync_ok AddLE_ok healthy_def
            closedSink_def riffSize_def dataSize_def Let_def)
  next
    case (Some m)
    show ?thesis using assms Some s
      by (simp add: Close_def writeMetadata_ok w_Seek_start w_Seek_end w_Sync_ok AddLE_ok
            healthy_def closedSink_def riffSize_def dataSize_def Let_def)
  qed
qed

lemma written_metadataSink:
  "\<exists>ws. written (metadataSink e s) = ws @ written s \<and> (\<forall>wr \<in> set ws. cursor s \<le> fst wr)"
  by (cases "Metadata e") (auto simp: metadataSink_def)

lemma newWrites_Close:
  assumes "healthy e"
  shows "\<exists>ws. newWrites e (fst (Close e)) =
           (if 0 < pcmChunkSizePos e
            then [(nat (pcmChunkSizePos e), PutUint32 (dataSize e))] else [])
           @ (4, PutUint32 (riffSize e)) # ws
         \<and> (\<forall>wr \<in> set ws. sinkCursor e \<le> fst wr)"
proof -
  from healthy_w [OF assms] obtain s where s: "w e = Some s" "script s = []" by blast
  from written_metadataSink [of e s] obtain ws where
    ws: "written (metadataSink e s) = ws @ written s" "\<forall>wr \<in> set ws. cursor s \<le> fst wr"
    by blast
  have "written (closedSink e) =
          ((if 0 < pcmChunkSizePos e
            then [(nat (pcmChunkSizePos e), PutUint32 (dataSize e))] else [])
           @ (4, PutUint32 (riffSize e)) # ws) @ written s"
    using s ws(1) by (simp add: closedSink_def Let_def)
  then have "newWrites e (fst (Close e)) =
          (if 0 < pcmChunkSizePos e
            then [(nat (pcmChunkSizePos e), PutUint32 (dataSize e))] else [])
           @ (4, PutUint32 (riffSize e)) # ws"
    using s by (simp add: newWrites_def Close_ok [OF assms])
  with ws(2) s show ?thesis by (auto simp: sinkCursor_def)
qed

lemma Close_data_field:
  assumes "healthy e" and "0 < pcmChunkSizePos e"
  shows "field32 (fst (Close e)) (nat (pcmChunkSizePos e)) = dataSize e"
proof -
  have "take 4 (drop (nat (pcmChunkSizePos e)) (content (closedSink e))) = PutUint32 (dataSize e)"
    using assms(2) take_drop_put_at_same [of "PutUint32 (dataSize e)"]
    by (simp add: closedSink_def Let_def)
  then show ?thesis
    by (simp add: Close_ok [OF assms(1)] field32_def Uint32_PutUint32)
qed

lemma Close_riff_field:
  assumes "healthy e" and "pcmChunkSizePos e \<le> 0 \<or> 8 \<le> pcmChunkSizePos e"
  shows "field32 (fst (Close e)) 4 = riffSize e"
proof -
  let ?c1 = "put_at (content (metadataSink e (the (w e)))) 4 (PutUint32 (riffSize e))"
  have same: "take 4 (drop 4 ?c1) = PutUint32 (riffSize e)"
    using take_drop_put_at_same [of "PutUint32 (riffSize e)"] by simp
  have "take 4 (drop 4 (content (closedSink e))) = PutUint32 (riffSize e)"
  proof (cases "0 < pcmChunkSizePos e")
    case False
    then show ?thesis using same by (simp add: closedSink_def Let_def)
  next
    case True
    with assms(2) have "4 + 4 \<le> nat (pcmChunkSizePos e)" by simp
    moreover have "4 + 4 \<le> length ?c1" by (simp add: length_put_at PutUint32_def)
    ultimately have "take 4 (drop 4 (put_at ?c1 (nat (pcmChunkSizePos e)) (PutUint32 (dataSize e))))
                       = take 4 (drop 4 ?c1)"
      by (rule take_drop_put_at_other)
    then show ?thesis using True same by (simp add: closedSink_def Let_def)
  qed
  then show ?thesis
    by (simp add: Close_ok [OF assms(1)] field32_def Uint32_PutUint32)
qed

subsection \<open>The header and the opening of the data chunk\<close>

lemma script_appendAll [simp]: "script (appendAll s vs) = script s"
  unfolding appendAll_def by (induction vs arbitrary: s) simp_all

lemma appendAll_Nil [simp]: "appendAll s [] = s"
  by (simp add: appendAll_def)

lemma appendAll_snoc [simp]:
  "appendAll s (vs @ [v]) = appended (appendAll s vs) (the (binary_bytes LittleEndian v))"
  by (simp add: appendAll_def)

lemma appendAll_snoc2:
  "appendAll s (vs @ [u, v]) =
     appended (appended (appendAll s vs) (the (binary_bytes LittleEndian u)))
       (the (binary_bytes LittleEndian v))"
  by (simp add: appendAll_def)

lemma sameConfig_refl [simp]: "sameConfig e e"
  by (simp add: sameConfig_def)

lemma sameConfig_trans: "sameConfig a b \<Longrightarrow> sameConfig b c \<Longrightarrow> sameConfig a c"
  by (simp add: sameConfig_def)

lemma writeHeader_ok:
  assumes "healthy e" and "\<not> wroteHeader e" and "WrittenBytes e \<le> 0"
  shows "writeHeader e =
           (e\<lparr>wroteHeader := True, WrittenBytes := WrittenBytes e + 36,
              w := Some (appendAll (the (w e)) (headerFields e))\<rparr>, None)"
proof -
  from healthy_w [OF assms(1)] obtain s where s: "w e = Some s" "script s = []" by blast
  show ?thesis using assms s
    by (simp add: writeHeader_def Let_def AddLE_ok healthy_def blockAlign_def
          headerFields_def appendAll_def RiffID_def WavFormatID_def FmtID_def)
qed


lemma writeSetup_opened: "wroteHeader e \<Longrightarrow> pcmChunkStarted e \<Longrightarrow> writeSetup e = (e, None)"
  by (simp add: writeSetup_def)


subsection \<open>Write and WriteAt, one call and many\<close>

lemma NumFrames_clip: "int (nat (NumFrames buf)) = max 0 (NumFrames buf)"
  by simp





section \<open>The size fields after Close\<close>

lemma fresh_NewEncoder:
  "script s = [] \<Longrightarrow> fresh ((NewEncoder (Some s) sampleRate bitDepth numChans audioFormat)\<lparr>Metadata := md\<rparr>)"
  by (simp add: fresh_def healthy_def NewEncoder_def)





text \<open>
  C3. For an encoder in any state whose sink does not fail, \<open>Close\<close> succeeds and writes
  at offset 4 the 32-bit value of the bytes written so far (the counter \<open>WrittenBytes\<close>)
  plus the bytes of the metadata chunk emitted by this \<open>Close\<close> (tag, size and payload),
  minus 8. That value is what the sink holds at offset 4 afterwards, unless the size
  placeholder of the data chunk lies inside the bytes 1..7 (it is 0 before the data chunk is
  opened and 40 once \<open>Write\<close>, \<open>WriteAt\<close> or \<open>WriteFrame\<close> opened it on a new encoder).
\<close>

theorem riff_size_field:
  assumes "healthy e"
  shows "snd (Close e) = None
         \<and> (4, PutUint32 (word_of_int (WrittenBytes e
                 + (case Metadata e of None \<Rightarrow> 0 | Some m \<Rightarrow> 4 + 4 + int (length m))) - 8))
             \<in> set (newWrites e (fst (Close e)))
         \<and> (pcmChunkSizePos e \<le> 0 \<or> 8 \<le> pcmChunkSizePos e \<longrightarrow>
               field32 (fst (Close e)) 4
                 = word_of_int (WrittenBytes e
                     + (case Metadata e of None \<Rightarrow> 0 | Some m \<Rightarrow> 4 + 4 + int (length m))) - 8)"
proof -
  have r: "riffSize e = word_of_int (WrittenBytes e
                 + (case Metadata e of None \<Rightarrow> 0 | Some m \<Rightarrow> 4 + 4 + int (length m))) - 8"
    by (simp add: riffSize_def metadataSize_def)
  from newWrites_Close [OF assms] have "(4, PutUint32 (riffSize e)) \<in> set (newWrites e (fst (Close e)))"
    by auto
  moreover have "snd (Close e) = None" by (simp add: Close_ok [OF assms])
  moreover have "field32 (fst (Close e)) 4 = riffSize e"
    if "pcmChunkSizePos e \<le> 0 \<or> 8 \<le> pcmChunkSizePos e"
    using that by (rule Close_riff_field [OF assms])
  ultimately show ?thesis unfolding r by blast
qed

text \<open>
  Running the encoder on a concrete input: the simplifier evaluates each call before it
  looks at the calls that follow it (the congruence rule keeps it out of the
  continuations), with the definitions below.
\<close>

lemma andThen_weak_cong: "r = r' \<Longrightarrow> andThen r f = andThen r' f"
  by simp

lemma wrapping_err:
  "wrapping ctx (e, Some err) = (e, Some (if is_panic err then err else ErrWrap ctx err))"
  by (simp add: wrapping_def)

lemmas run_defs =
  Write_def WriteAt_def WriteFrame_def writeSetup_def writeHeader_def AddLE_def AddBE_def
  binary_Write_def sink_Write_def sink_WriteAt_def sink_Seek_def sink_Sync_def fault_def
  advance_def store_def put_at_def wrapping_err is_panic_def NewEncoder_def blockAlign_def
  go_div_def RiffID_def WavFormatID_def FmtID_def DataFormatID_def CIDList_def PutUint16_def
  PutUint32_def addBuffer_def encodeFrames_def encodeChannels_def encodeSample_def
  NumFrames_def bufChannels_def Let_def Close_def w_Seek_def w_Sync_def writeMetadata_def
  encodeInfoChunk_def upt_rec sinkBytes_def sinkCursor_def field32_def Uint32_def
  stereoPair_def freshSink_def payloadFailingSink_def newEncoder_def

theorem riff_size_field_witness:
  "healthy taggedOnce \<and> (pcmChunkSizePos taggedOnce \<le> 0 \<or> 8 \<le> pcmChunkSizePos taggedOnce)
   \<and> WrittenBytes taggedOnce = 52 \<and> Metadata taggedOnce = Some [1, 2, 3]
   \<and> snd (Close taggedOnce) = None
   \<and> (4, PutUint32 55) \<in> set (newWrites taggedOnce (fst (Close taggedOnce)))
   \<and> field32 (fst (Close taggedOnce)) 4 = 52 + 11 - 8"
proof -
  have h: "healthy taggedOnce"
    by (simp add: taggedOnce_def healthy_def run_defs cong: andThen_weak_cong)
  have p: "pcmChunkSizePos taggedOnce = 40"
    by (simp add: taggedOnce_def run_defs cong: andThen_weak_cong)
  have n: "WrittenBytes taggedOnce = 52"
    by (simp add: taggedOnce_def run_defs cong: andThen_weak_cong)
  have m: "Metadata taggedOnce = Some [1, 2, 3]"
    by (simp add: taggedOnce_def run_defs cong: andThen_weak_cong)
  from riff_size_field [OF h] show ?thesis
    by (simp add: h p n m)
qed

section \<open>A nil buffer\<close>

subsection \<open>The frame counter\<close>

lemma frames_binary_Write [simp]: "frames (fst (binary_Write e order v)) = frames e"
  by (simp add: binary_Write_def split: option.splits prod.splits)

lemma frames_AddLE [simp]: "frames (fst (AddLE e v)) = frames e"
  by (simp add: AddLE_def)

lemma frames_AddBE [simp]: "frames (fst (AddBE e v)) = frames e"
  by (simp add: AddBE_def)

lemma frames_andThen:
  "frames (fst r) = n \<Longrightarrow> (\<And>e. frames e = n \<Longrightarrow> frames (fst (f e)) = n) \<Longrightarrow>
   frames (fst (andThen r f)) = n"
  by (simp add: andThen_def split: option.splits)

lemma frames_writeHeader [simp]: "frames (fst (writeHeader e)) = frames e"
  unfolding writeHeader_def Let_def
  by (auto intro!: frames_andThen)

lemma frames_writeSetup [simp]: "frames (fst (writeSetup e)) = frames e"
  unfolding writeSetup_def Let_def
  by (auto intro!: frames_andThen)

lemma snd_andThen_None: "snd (andThen r f) = None \<Longrightarrow> snd r = None"
  by (simp add: andThen_def split: option.splits)

subsection \<open>Errors and panics\<close>

lemma proper_binary_Write: "w e \<noteq> None \<Longrightarrow> proper (binary_Write e order v)"
  by (auto simp: proper_def binary_Write_def is_panic_def sink_Write_def
        split: option.splits prod.splits)

lemma proper_AddLE: "w e \<noteq> None \<Longrightarrow> proper (AddLE e v)"
  by (simp add: AddLE_def proper_binary_Write)

lemma proper_andThen:
  assumes "proper r" and "\<And>e. w e \<noteq> None \<Longrightarrow> proper (f e)"
  shows "proper (andThen r f)"
proof (cases "snd r")
  case None
  from assms(1) have "w (fst r) \<noteq> None" by (simp add: proper_def)
  from assms(2) [OF this] show ?thesis using None by (simp add: andThen_def)
next
  case (Some err)
  with assms(1) show ?thesis by (simp add: andThen_def)
qed

lemma proper_wrapping: "proper r \<Longrightarrow> proper (wrapping ctx r)"
  by (auto simp: wrapping_def proper_def is_panic_def split: option.splits)

lemma proper_ok: "w e \<noteq> None \<Longrightarrow> proper (e, None)"
  by (simp add: proper_def)

lemma proper_err: "w e \<noteq> None \<Longrightarrow> \<not> is_panic err \<Longrightarrow> proper (e, Some err)"
  by (simp add: proper_def)

lemma proper_writeHeader:
  assumes "w e \<noteq> None"
  shows "proper (writeHeader e)"
proof (cases "wroteHeader e")
  case True
  with assms show ?thesis by (simp add: writeHeader_def proper_err is_panic_def)
next
  case False
  have h: "w (e\<lparr>wroteHeader := True\<rparr>) \<noteq> None" using assms by simp
  show ?thesis
  proof (cases "0 < WrittenBytes e")
    case True
    with False assms h show ?thesis by (auto simp: writeHeader_def Let_def proper_ok)
  next
    case nw: False
    have "proper (andThen (AddLE (e\<lparr>wroteHeader := True\<rparr>) RiffID) f)"
      if "\<And>e. w e \<noteq> None \<Longrightarrow> proper (f e)" for f
      using that h by (intro proper_andThen proper_AddLE)
    then show ?thesis using False nw assms
      unfolding writeHeader_def Let_def
      by (auto intro!: proper_andThen proper_wrapping proper_AddLE)
  qed
qed

lemma proper_writeSetup:
  assumes "w e \<noteq> None"
  shows "proper (writeSetup e)"
  unfolding writeSetup_def Let_def
  using assms
  by (auto intro!: proper_andThen proper_wrapping proper_AddLE proper_writeHeader proper_ok)

text \<open>
  C4, as the code has it. \<open>Write\<close> and \<open>WriteAt\<close> with a nil buffer never succeed and
  never change the frame counter; on a non-nil sink what they return is an error (on a nil
  sink the second such call panics). They leave the whole encoder unchanged, the byte
  counter included, when the header and the data chunk have already been emitted; on an
  encoder that has not emitted them the emission runs before the buffer is looked at.
\<close>

theorem nil_buffer_rejected:
  "snd (Write e None) \<noteq> None
   \<and> isl (snd (WriteAt e None pos))
   \<and> frames (fst (Write e None)) = frames e
   \<and> frames (fst (WriteAt e None pos)) = frames e
   \<and> (w e \<noteq> None \<longrightarrow>
        (\<exists>err. snd (Write e None) = Some err \<and> \<not> is_panic err)
        \<and> (\<exists>err. snd (WriteAt e None pos) = Inl err \<and> \<not> is_panic err))
   \<and> (wroteHeader e \<and> pcmChunkStarted e \<longrightarrow>
        fst (Write e None) = e \<and> fst (WriteAt e None pos) = e)"
proof -
  obtain e1 r where s: "writeSetup e = (e1, r)" by (cases "writeSetup e")
  have f: "frames e1 = frames e" using frames_writeSetup [of e] by (simp add: s)
  have "snd (Write e None) \<noteq> None"
    by (cases r) (simp_all add: Write_def s addBuffer_def)
  moreover have "isl (snd (WriteAt e None pos))"
    by (cases r) (simp_all add: WriteAt_def s addBuffer_def)
  moreover have "frames (fst (Write e None)) = frames e"
    using f by (cases r) (simp_all add: Write_def s addBuffer_def)
  moreover have "frames (fst (WriteAt e None pos)) = frames e"
    using f by (cases r) (simp_all add: WriteAt_def s addBuffer_def)
  moreover have "(\<exists>err. snd (Write e None) = Some err \<and> \<not> is_panic err)
        \<and> (\<exists>err. snd (WriteAt e None pos) = Inl err \<and> \<not> is_panic err)"
    if "w e \<noteq> None"
  proof -
    from proper_writeSetup [OF that] have "case r of None \<Rightarrow> True | Some err \<Rightarrow> \<not> is_panic err"
      by (simp add: proper_def s)
    then show ?thesis
      by (cases r) (simp_all add: Write_def WriteAt_def s addBuffer_def is_panic_def)
  qed
  moreover have "fst (Write e None) = e \<and> fst (WriteAt e None pos) = e"
    if "wroteHeader e \<and> pcmChunkStarted e"
    using that by (simp add: Write_def WriteAt_def writeSetup_opened addBuffer_def)
  ultimately show ?thesis by blast
qed

theorem nil_buffer_rejected_witness:
  "w taggedOnce \<noteq> None \<and> wroteHeader taggedOnce \<and> pcmChunkStarted taggedOnce
   \<and> snd (Write taggedOnce None) = Some ErrNilBuffer
   \<and> snd (WriteAt taggedOnce None 0) = Inl ErrNilBuffer
   \<and> fst (Write taggedOnce None) = taggedOnce
   \<and> fst (WriteAt taggedOnce None 0) = taggedOnce"
proof -
  have h: "w taggedOnce \<noteq> None"
    by (simp add: taggedOnce_def run_defs cong: andThen_weak_cong)
  have a: "wroteHeader taggedOnce"
    by (simp add: taggedOnce_def run_defs cong: andThen_weak_cong)
  have b: "pcmChunkStarted taggedOnce"
    by (simp add: taggedOnce_def run_defs cong: andThen_weak_cong)
  have c: "snd (Write taggedOnce None) = Some ErrNilBuffer"
    by (simp add: Write_def writeSetup_opened [OF a b] addBuffer_def)
  have d: "snd (WriteAt taggedOnce None 0) = Inl ErrNilBuffer"
    by (simp add: WriteAt_def writeSetup_opened [OF a b] addBuffer_def)
  from nil_buffer_rejected [of taggedOnce 0] show ?thesis
    using h a b c d by simp
qed

text \<open>
  On a new encoder the nil buffer is refused only after the header and the opening of the
  data chunk have been written: the byte counter goes from 0 to 44.
\<close>

theorem nil_buffer_counterexample:
  "snd (Write (NewEncoder (Some freshSink) 44100 16 2 1) None) = Some ErrNilBuffer
   \<and> WrittenBytes (NewEncoder (Some freshSink) 44100 16 2 1) = 0
   \<and> WrittenBytes (fst (Write (NewEncoder (Some freshSink) 44100 16 2 1) None)) = 44"
  by (simp add: run_defs cong: andThen_weak_cong)

section \<open>Where the code departs from the specification\<close>

subsection \<open>An error of the sink in addBuffer\<close>

lemma forRange_error:
  "forRange is a body = Inl err \<Longrightarrow> \<exists>i a'. body i a' = Inl err"
proof (induction "is" arbitrary: a)
  case Nil
  then show ?case by simp
next
  case (Cons i "is")
  then show ?case by (cases "body i a") auto
qed

lemma encodeSample_error: "encodeSample bitDepth v = Inl err \<Longrightarrow> err = ErrBitSize bitDepth"
  by (auto simp: encodeSample_def split: if_splits)

lemma encodeChannels_error:
  assumes "encodeChannels bitDepth buf i binaryBuf = Inl err"
  shows "err = ErrBitSize bitDepth \<or> err = PanicIndex"
proof -
  from forRange_error [OF assms [unfolded encodeChannels_def]]
  show ?thesis
    by (auto simp: Let_def dest: encodeSample_error split: if_splits sum.splits)
qed

lemma encodeFrames_error:
  assumes "encodeFrames bitDepth buf = Inl err"
  shows "err = ErrBitSize bitDepth \<or> err = PanicIndex"
proof -
  from forRange_error [OF assms [unfolded encodeFrames_def]]
  obtain i binaryBuf and bufferFrames :: int where
    "(case encodeChannels bitDepth buf i binaryBuf of
        Inl err \<Rightarrow> Inl err
      | Inr binaryBuf' \<Rightarrow> Inr (binaryBuf', bufferFrames + 1)) = Inl err"
    by auto
  then have "encodeChannels bitDepth buf i binaryBuf = Inl err"
    by (cases "encodeChannels bitDepth buf i binaryBuf") simp_all
  then show ?thesis by (rule encodeChannels_error)
qed

text \<open>
  \<open>addBuffer\<close> has no path on which it returns an error of the sink: whatever
  \<^verbatim>\<open>e.w.Write\<close> or \<^verbatim>\<open>e.w.WriteAt\<close> reports is dropped.
\<close>

lemma addBuffer_no_sink_error: "snd (addBuffer e buf pos) \<noteq> Inl (ErrSink c)"
  by (auto simp: addBuffer_def dest: encodeFrames_error split: option.splits sum.splits prod.splits)

lemma replicate_4: "replicate 4 x = [x, x, x, x]"
  by (simp add: numeral_eq_Suc)

text \<open>
  C1. A sink that accepts the header and the opening of the data chunk (13 writes) and
  fails on the write of the encoded samples with no byte written: \<open>Write\<close> returns nil and
  \<open>WriteAt\<close> returns 0 bytes and nil, the sink holds the 44 header bytes only, and the two
  frames are counted all the same. The last line is the sink's own answer to the write of
  the encoded samples.
\<close>

theorem sink_error_dropped:
  "snd (Write (NewEncoder (Some payloadFailingSink) 44100 16 2 1) (Some stereoPair)) = None
   \<and> snd (WriteAt (NewEncoder (Some payloadFailingSink) 44100 16 2 1) (Some stereoPair) 0) = Inr 0
   \<and> length (sinkBytes (fst (Write (NewEncoder (Some payloadFailingSink) 44100 16 2 1)
                                (Some stereoPair)))) = 44
   \<and> frames (fst (Write (NewEncoder (Some payloadFailingSink) 44100 16 2 1) (Some stereoPair))) = 2
   \<and> snd (snd (sink_Write
                  (the (w (fst (writeSetup (NewEncoder (Some payloadFailingSink) 44100 16 2 1)))))
                  (payload 16 stereoPair))) = Some (ErrSink 7)"
  by (simp add: run_defs payload_def cong: andThen_weak_cong)

subsection \<open>Close on a new encoder\<close>

text \<open>
  C5. \<open>Close\<close> on a new encoder, to which nothing was written, returns nil and writes the
  RIFF size field all the same: the value \<open>0 - 8\<close> as a \<^verbatim>\<open>uint32\<close> at offset 4 of a sink
  that was empty.
\<close>

theorem Close_of_new_encoder_writes:
  "snd (Close newEncoder) = None
   \<and> sinkBytes newEncoder = []
   \<and> sinkBytes (fst (Close newEncoder)) = [0, 0, 0, 0, 0xF8, 0xFF, 0xFF, 0xFF]
   \<and> WrittenBytes (fst (Close newEncoder)) = 4"
  by (simp add: run_defs replicate_4 cong: andThen_weak_cong)

subsection \<open>A value without a size\<close>

text \<open>
  C9. \<open>AddLE\<close> and \<open>AddBE\<close> add \<^verbatim>\<open>binary.Size\<close> of the value to the byte counter without
  looking at it: for a value that \<^verbatim>\<open>encoding/binary\<close> cannot size the counter goes down
  by one, from 0 to -1 on a new encoder, and from 52 to 51 through \<open>WriteFrame\<close> after one
  \<open>Write\<close>.
\<close>

theorem unsized_value_decrements:
  "WrittenBytes (fst (AddLE e GoNotFixedSize)) = WrittenBytes e - 1
   \<and> WrittenBytes (fst (AddBE e GoNotFixedSize)) = WrittenBytes e - 1
   \<and> snd (AddLE newEncoder GoNotFixedSize) = Some ErrNotFixedSize
   \<and> WrittenBytes (fst (AddLE newEncoder GoNotFixedSize)) = - 1
   \<and> WrittenBytes writtenOnce = 52
   \<and> WrittenBytes (fst (WriteFrame writtenOnce GoNotFixedSize)) = 51"
proof -
  have a: "WrittenBytes (fst (AddLE e GoNotFixedSize)) = WrittenBytes e - 1"
    by (simp add: AddLE_def binary_Write_def)
  have b: "WrittenBytes (fst (AddBE e GoNotFixedSize)) = WrittenBytes e - 1"
    by (simp add: AddBE_def binary_Write_def)
  have c: "snd (AddLE newEncoder GoNotFixedSize) = Some ErrNotFixedSize"
    by (simp add: AddLE_def binary_Write_def)
  have d: "WrittenBytes (fst (AddLE newEncoder GoNotFixedSize)) = - 1"
    by (simp add: AddLE_def binary_Write_def newEncoder_def NewEncoder_def)
  have w1: "WrittenBytes writtenOnce = 52"
    by (simp add: writtenOnce_def run_defs cong: andThen_weak_cong)
  have f: "wroteHeader writtenOnce" "pcmChunkStarted writtenOnce"
    by (simp_all add: writtenOnce_def run_defs cong: andThen_weak_cong)
  have g: "WrittenBytes (fst (WriteFrame writtenOnce GoNotFixedSize)) = 51"
    using f w1 by (simp add: WriteFrame_def AddLE_def binary_Write_def)
  from a b c d w1 g show ?thesis by simp
qed

section \<open>Closing twice\<close>

lemma PutUint32_nonempty [simp]: "PutUint32 x \<noteq> []"
  by (simp add: PutUint32_def)

lemma content_closedSink_length:
  "0 < pcmChunkSizePos e \<Longrightarrow> nat (pcmChunkSizePos e) + 4 \<le> length (content (closedSink e))"
  by (simp add: closedSink_def Let_def length_put_at)

lemma Close_step:
  assumes "healthy e" and "8 \<le> pcmChunkSizePos e"
    and "pcmChunkSizePos e + 4 \<le> int (sinkCursor e)"
  shows "snd (Close e) = None \<and> healthy (fst (Close e))
         \<and> pcmChunkSizePos (fst (Close e)) = pcmChunkSizePos e
         \<and> pcmChunkSizePos e + 4 \<le> int (sinkCursor (fst (Close e)))
         \<and> overwrites (fst (Close e)) (nat (pcmChunkSizePos e)) 4
             = overwrites e (nat (pcmChunkSizePos e)) 4 + 1
         \<and> BitDepth (fst (Close e)) = BitDepth e \<and> NumChans (fst (Close e)) = NumChans e
         \<and> frames (fst (Close e)) = frames e \<and> Metadata (fst (Close e)) = Metadata e
         \<and> WrittenBytes (fst (Close e)) = WrittenBytes e + metadataSize e + 8"
proof -
  let ?p = "nat (pcmChunkSizePos e)"
  from healthy_w [OF assms(1)] obtain s where s: "w e = Some s" "script s = []" by blast
  from assms(2,3) s have cur: "?p + 4 \<le> cursor s" by (simp add: sinkCursor_def)
  from written_metadataSink [of e s] obtain ws where
    ws: "written (metadataSink e s) = ws @ written s" "\<forall>wr \<in> set ws. cursor s \<le> fst wr"
    by blast
  have none: "filter (overlaps ?p 4) ws = []"
    using ws(2) cur by (auto simp: filter_empty_conv overlaps_def)
  have wr: "written (closedSink e) =
              (?p, PutUint32 (dataSize e)) # (4, PutUint32 (riffSize e)) # ws @ written s"
    using assms(2) s ws(1) by (simp add: closedSink_def Let_def)
  have "length (filter (overlaps ?p 4) (written (closedSink e)))
          = length (filter (overlaps ?p 4) (written s)) + 1"
    using assms(2) none by (simp add: wr overlaps_def PutUint32_def)
  moreover have "?p + 4 \<le> cursor (closedSink e)"
    using content_closedSink_length [of e] assms(2) by (simp add: closedSink_def Let_def)
  ultimately show ?thesis
    using assms(1,2) s
    by (simp add: Close_ok [OF assms(1)] healthy_def script_closedSink [OF assms(1)]
          overwrites_def sinkCursor_def)
qed

text \<open>
  C6, as the code has it. The encoder keeps no record of having been closed. A \<open>Close\<close>
  on a sink that does not fail, with the data chunk opened (its placeholder at offset 8 or
  later and the sink's cursor behind it), returns nil and overwrites the placeholder
  exactly once, with \<open>(BitDepth / 8) * NumChans * frames\<close>. A second \<open>Close\<close> returns nil
  as well and patches both size fields again: the data-chunk field with the same value,
  the RIFF field with a total that has grown by the 8 bytes of the first \<open>Close\<close>'s own
  patches and by the metadata chunk it emitted.
\<close>

theorem Close_patches_every_time:
  assumes "healthy e" and "8 \<le> pcmChunkSizePos e"
    and "pcmChunkSizePos e + 4 \<le> int (sinkCursor e)"
  shows "snd (Close e) = None
         \<and> overwrites (fst (Close e)) (nat (pcmChunkSizePos e)) 4
             = overwrites e (nat (pcmChunkSizePos e)) 4 + 1
         \<and> field32 (fst (Close e)) (nat (pcmChunkSizePos e))
             = word_of_int (go_div (BitDepth e) 8 * NumChans e * frames e)
         \<and> field32 (fst (Close e)) 4 = word_of_int (WrittenBytes e + metadataSize e) - 8
         \<and> snd (Close (fst (Close e))) = None
         \<and> overwrites (fst (Close (fst (Close e)))) (nat (pcmChunkSizePos e)) 4
             = overwrites e (nat (pcmChunkSizePos e)) 4 + 2
         \<and> field32 (fst (Close (fst (Close e)))) (nat (pcmChunkSizePos e))
             = word_of_int (go_div (BitDepth e) 8 * NumChans e * frames e)
         \<and> field32 (fst (Close (fst (Close e)))) 4
             = word_of_int (WrittenBytes e + 2 * metadataSize e + 8) - 8"
proof -
  let ?e1 = "fst (Close e)"
  note one = Close_step [OF assms]
  from one have h1: "healthy ?e1" and p1: "pcmChunkSizePos ?e1 = pcmChunkSizePos e"
    and c1: "pcmChunkSizePos ?e1 + 4 \<le> int (sinkCursor ?e1)" by simp_all
  from assms(2) p1 have q1: "8 \<le> pcmChunkSizePos ?e1" by simp
  note two = Close_step [OF h1 q1 c1]
  have pos: "0 < pcmChunkSizePos e" "pcmChunkSizePos e \<le> 0 \<or> 8 \<le> pcmChunkSizePos e"
    using assms(2) by simp_all
  have pos1: "0 < pcmChunkSizePos ?e1" "pcmChunkSizePos ?e1 \<le> 0 \<or> 8 \<le> pcmChunkSizePos ?e1"
    using q1 by simp_all
  have d1: "field32 ?e1 (nat (pcmChunkSizePos e)) = dataSize e"
    by (rule Close_data_field [OF assms(1) pos(1)])
  have r1: "field32 ?e1 4 = riffSize e"
    by (rule Close_riff_field [OF assms(1) pos(2)])
  have d2: "field32 (fst (Close ?e1)) (nat (pcmChunkSizePos e)) = dataSize ?e1"
    using Close_data_field [OF h1 pos1(1)] by (simp add: p1)
  have r2: "field32 (fst (Close ?e1)) 4 = riffSize ?e1"
    by (rule Close_riff_field [OF h1 pos1(2)])
  have ds: "dataSize ?e1 = dataSize e" using one by (simp add: dataSize_def)
  have ms: "metadataSize ?e1 = metadataSize e" using one by (simp add: metadataSize_def)
  have rs: "riffSize ?e1 = word_of_int (WrittenBytes e + 2 * metadataSize e + 8) - 8"
    using one by (simp add: riffSize_def ms)
  from two have o2: "overwrites (fst (Close ?e1)) (nat (pcmChunkSizePos e)) 4
                       = overwrites e (nat (pcmChunkSizePos e)) 4 + 2"
    using one by (simp add: p1)
  from one two d1 r1 d2 r2 o2 show ?thesis
    unfolding ds rs by (simp add: dataSize_def riffSize_def)
qed

theorem Close_patches_every_time_witness:
  "healthy writtenOnce \<and> 8 \<le> pcmChunkSizePos writtenOnce
   \<and> pcmChunkSizePos writtenOnce + 4 \<le> int (sinkCursor writtenOnce)
   \<and> snd (Close writtenOnce) = None \<and> snd (Close (fst (Close writtenOnce))) = None
   \<and> overwrites writtenOnce 40 4 = 1
   \<and> overwrites (fst (Close writtenOnce)) 40 4 = 2
   \<and> overwrites (fst (Close (fst (Close writtenOnce)))) 40 4 = 3
   \<and> field32 (fst (Close writtenOnce)) 4 = 44
   \<and> field32 (fst (Close (fst (Close writtenOnce)))) 4 = 52"
proof -
  have h: "healthy writtenOnce"
    by (simp add: writtenOnce_def healthy_def run_defs cong: andThen_weak_cong)
  have p: "pcmChunkSizePos writtenOnce = 40"
    by (simp add: writtenOnce_def run_defs cong: andThen_weak_cong)
  have c: "sinkCursor writtenOnce = 52"
    by (simp add: writtenOnce_def run_defs cong: andThen_weak_cong)
  have n: "WrittenBytes writtenOnce = 52" "Metadata writtenOnce = None"
    by (simp_all add: writtenOnce_def run_defs cong: andThen_weak_cong)
  have o: "overwrites writtenOnce 40 4 = 1"
    by (simp add: writtenOnce_def overwrites_def overlaps_def run_defs cong: andThen_weak_cong)
  have a1: "8 \<le> pcmChunkSizePos writtenOnce" by (simp add: p)
  have a2: "pcmChunkSizePos writtenOnce + 4 \<le> int (sinkCursor writtenOnce)" by (simp add: p c)
  from Close_patches_every_time [OF h a1 a2] show ?thesis
    using h by (simp add: p c n o metadataSize_def)
qed

text \<open>
  After one \<open>Write\<close> and one \<open>Close\<close>, a second \<open>Close\<close> returns nil, overwrites the
  placeholder once more and changes the RIFF size field from 44 to 52.
\<close>

theorem second_Close_counterexample:
  "snd (Close closedOnce) = None
   \<and> field32 closedOnce 4 = 44
   \<and> field32 (fst (Close closedOnce)) 4 = 52
   \<and> overwrites closedOnce 40 4 + 1 = overwrites (fst (Close closedOnce)) 40 4"
proof -
  have h: "healthy writtenOnce"
    by (simp add: writtenOnce_def healthy_def run_defs cong: andThen_weak_cong)
  have p: "pcmChunkSizePos writtenOnce = 40"
    by (simp add: writtenOnce_def run_defs cong: andThen_weak_cong)
  have c: "sinkCursor writtenOnce = 52"
    by (simp add: writtenOnce_def run_defs cong: andThen_weak_cong)
  have n: "WrittenBytes writtenOnce = 52" "Metadata writtenOnce = None"
    by (simp_all add: writtenOnce_def run_defs cong: andThen_weak_cong)
  have s: "8 \<le> pcmChunkSizePos writtenOnce"
    "pcmChunkSizePos writtenOnce + 4 \<le> int (sinkCursor writtenOnce)"
    by (simp_all add: p c)
  have h1: "healthy closedOnce" and p1: "pcmChunkSizePos closedOnce = 40"
    and c1: "40 + 4 \<le> int (sinkCursor closedOnce)"
    and n1: "WrittenBytes closedOnce = 60" "Metadata closedOnce = None"
    using Close_step [OF h s] by (simp_all add: closedOnce_def p n metadataSize_def)
  have s1: "8 \<le> pcmChunkSizePos closedOnce"
    "pcmChunkSizePos closedOnce + 4 \<le> int (sinkCursor closedOnce)"
    using c1 by (simp_all add: p1)
  have r0: "field32 closedOnce 4 = 44"
    using Close_riff_field [OF h] by (simp add: closedOnce_def p riffSize_def n metadataSize_def)
  have r1: "field32 (fst (Close closedOnce)) 4 = 52"
    using Close_riff_field [OF h1] by (simp add: p1 riffSize_def n1 metadataSize_def)
  from Close_step [OF h1 s1] r0 r1 show ?thesis by (simp add: p1)
qed

section \<open>Positioned writes\<close>

lemma writeHeader_healthy:
  assumes "healthy e" and "\<not> wroteHeader e"
  shows "\<exists>e'. writeHeader e = (e', None) \<and> healthy e' \<and> wroteHeader e'
              \<and> pcmChunkStarted e' = pcmChunkStarted e \<and> BitDepth e' = BitDepth e
              \<and> NumChans e' = NumChans e \<and> frames e' = frames e"
proof (cases "0 < WrittenBytes e")
  case True
  from healthy_w [OF assms(1)] obtain s where s: "w e = Some s" "script s = []" by blast
  with True assms show ?thesis by (simp add: writeHeader_def Let_def healthy_def)
next
  case False
  then have "WrittenBytes e \<le> 0" by simp
  from writeHeader_ok [OF assms this] assms(1) show ?thesis by (simp add: healthy_def)
qed



lemma put_at_Nil [simp]: "put_at c off [] = c"
  by (simp add: put_at_def)





section \<open>WriteFrame\<close>

lemma started_binary_Write [simp]:
  "pcmChunkStarted (fst (binary_Write e order v)) = pcmChunkStarted e"
  by (simp add: binary_Write_def split: option.splits prod.splits)

lemma started_AddLE [simp]: "pcmChunkStarted (fst (AddLE e v)) = pcmChunkStarted e"
  by (simp add: AddLE_def)

lemma started_andThen:
  "pcmChunkStarted (fst r) = b \<Longrightarrow>
   (\<And>e. pcmChunkStarted e = b \<Longrightarrow> pcmChunkStarted (fst (f e)) = b) \<Longrightarrow>
   pcmChunkStarted (fst (andThen r f)) = b"
  by (simp add: andThen_def split: option.splits)

lemma started_writeHeader [simp]: "pcmChunkStarted (fst (writeHeader e)) = pcmChunkStarted e"
  unfolding writeHeader_def Let_def
  by (auto intro!: started_andThen)

lemma AddLE_healthy:
  assumes "healthy e"
  shows "healthy (fst (AddLE e v)) \<and> wroteHeader (fst (AddLE e v)) = wroteHeader e
         \<and> pcmChunkSizePos (fst (AddLE e v)) = pcmChunkSizePos e
         \<and> sameConfig e (fst (AddLE e v))"
proof (cases "sizable v")
  case True
  from AddLE_ok [OF assms True] assms show ?thesis by (simp add: healthy_def sameConfig_def)
next
  case False
  then have "v = GoNotFixedSize" by (simp add: sizable_def)
  with assms show ?thesis by (simp add: AddLE_def binary_Write_def healthy_def sameConfig_def)
qed

lemma WriteFrame_counts:
  assumes "pcmChunkStarted e \<or> healthy e"
  shows "frames (fst (WriteFrame e v)) = frames e + 1"
proof -
  let ?e1 = "if \<not> wroteHeader e then fst (writeHeader e) else e"
  have f1: "frames ?e1 = frames e" by simp
  show ?thesis
  proof (cases "pcmChunkStarted e")
    case True
    then have "pcmChunkStarted ?e1" by simp
    then show ?thesis using f1 by (simp add: WriteFrame_def Let_def)
  next
    case False
    with assms have h: "healthy e" by simp
    have h1: "healthy ?e1" using writeHeader_healthy [OF h] h by (cases "wroteHeader e") auto
    have n1: "\<not> pcmChunkStarted ?e1" using False by simp
    show ?thesis using h1 n1 f1
      by (simp add: WriteFrame_def AddLE_ok healthy_def Let_def del: if_not_P)
  qed
qed

lemma WriteFrame_ready:
  assumes "fresh e \<or> opened e"
  shows "opened (fst (WriteFrame e v)) \<and> frames (fst (WriteFrame e v)) = frames e + 1
         \<and> sameConfig e (fst (WriteFrame e v))"
  using assms
proof
  assume f: "fresh e"
  then have h: "healthy e" and n: "\<not> wroteHeader e" "\<not> pcmChunkStarted e" "WrittenBytes e = 0"
    by (simp_all add: fresh_def)
  from n have le: "WrittenBytes e \<le> 0" by simp
  let ?e2 = "e\<lparr>wroteHeader := True, pcmChunkStarted := True, pcmChunkSizePos := 40,
               WrittenBytes := 44,
               w := Some (appendAll (the (w e)) (headerFields e @ [DataFormatID, GoUint32 42])),
               frames := frames e + 1\<rparr>"
  have "WriteFrame e v = AddLE ?e2 v"
    using h n by (simp add: WriteFrame_def writeHeader_ok [OF h n(1) le] AddLE_ok healthy_def
        Let_def appendAll_snoc2 DataFormatID_def)
  moreover have "healthy ?e2" using h by (simp add: healthy_def)
  ultimately show ?thesis
    using AddLE_healthy [of ?e2 v] by (simp add: opened_def sameConfig_def)
next
  assume o: "opened e"
  then have "WriteFrame e v = AddLE (e\<lparr>frames := frames e + 1\<rparr>) v"
    by (simp add: WriteFrame_def opened_def Let_def)
  moreover have "healthy (e\<lparr>frames := frames e + 1\<rparr>)" using o by (simp add: opened_def healthy_def)
  ultimately show ?thesis
    using AddLE_healthy [of "e\<lparr>frames := frames e + 1\<rparr>" v] o
    by (simp add: opened_def sameConfig_def)
qed

lemma writeFrames_opened:
  assumes "opened e"
  shows "opened (writeFrames e vs) \<and> frames (writeFrames e vs) = frames e + int (length vs)
         \<and> sameConfig e (writeFrames e vs)"
  using assms
proof (induction vs arbitrary: e)
  case Nil
  then show ?case by simp
next
  case (Cons v vs)
  from WriteFrame_ready [of e v] Cons.prems have
    s: "opened (fst (WriteFrame e v))" "frames (fst (WriteFrame e v)) = frames e + 1"
       "sameConfig e (fst (WriteFrame e v))" by simp_all
  from Cons.IH [OF s(1)] s show ?case by (auto intro: sameConfig_trans)
qed

lemma writeFrames_ready:
  assumes "fresh e" and "vs \<noteq> []"
  shows "opened (writeFrames e vs) \<and> frames (writeFrames e vs) = int (length vs)
         \<and> sameConfig e (writeFrames e vs)"
proof -
  from assms(2) obtain v rest where vs: "vs = v # rest" by (cases vs) auto
  from WriteFrame_ready [of e v] assms(1) have
    s: "opened (fst (WriteFrame e v))" "frames (fst (WriteFrame e v)) = frames e + 1"
       "sameConfig e (fst (WriteFrame e v))" by simp_all
  from assms(1) have "frames e = 0" by (simp add: fresh_def)
  with writeFrames_opened [OF s(1), of rest] s show ?thesis
    by (auto simp: vs intro: sameConfig_trans)
qed

text \<open>
  C10, as the code has it. A \<open>WriteFrame\<close> call made when the data chunk is already open,
  or on a sink that does not fail, adds exactly one to the frame counter, whatever the
  channel count and the value (also when the value itself cannot be written). After
  \<open>k > 0\<close> calls on a new encoder whose sink does not fail, \<open>Close\<close> succeeds and the
  data-chunk size field, at offset 40, is \<open>k * NumChans * (BitDepth / 8)\<close>.
\<close>

theorem WriteFrame_counts_one_frame:
  assumes "pcmChunkStarted e \<or> healthy e" and "script s = []" and "vals \<noteq> []"
  shows "frames (fst (WriteFrame e v)) = frames e + 1
         \<and> frames (writeFrames ((NewEncoder (Some s) sampleRate bitDepth numChans audioFormat)
                                   \<lparr>Metadata := md\<rparr>) vals) = int (length vals)
         \<and> pcmChunkSizePos (writeFrames ((NewEncoder (Some s) sampleRate bitDepth numChans
                                             audioFormat)\<lparr>Metadata := md\<rparr>) vals) = 40
         \<and> snd (Close (writeFrames ((NewEncoder (Some s) sampleRate bitDepth numChans audioFormat)
                                      \<lparr>Metadata := md\<rparr>) vals)) = None
         \<and> field32 (fst (Close (writeFrames ((NewEncoder (Some s) sampleRate bitDepth numChans
                                                audioFormat)\<lparr>Metadata := md\<rparr>) vals))) 40
             = word_of_int (int (length vals) * numChans * go_div bitDepth 8)"
proof -
  let ?e0 = "(NewEncoder (Some s) sampleRate bitDepth numChans audioFormat)\<lparr>Metadata := md\<rparr>"
  let ?e1 = "writeFrames ?e0 vals"
  have f: "fresh ?e0" using assms(2) by (rule fresh_NewEncoder)
  from writeFrames_ready [OF f assms(3)] have
    o: "opened ?e1" and n: "frames ?e1 = int (length vals)" and c: "sameConfig ?e0 ?e1"
    by simp_all
  from o have h: "healthy ?e1" and p: "pcmChunkSizePos ?e1 = 40" by (simp_all add: opened_def)
  from c have cfg: "BitDepth ?e1 = bitDepth" "NumChans ?e1 = numChans"
    by (simp_all add: sameConfig_def NewEncoder_def)
  have "field32 (fst (Close ?e1)) (nat (pcmChunkSizePos ?e1)) = dataSize ?e1"
    using h p by (intro Close_data_field) simp_all
  then have fld: "field32 (fst (Close ?e1)) 40
                    = word_of_int (int (length vals) * numChans * go_div bitDepth 8)"
    by (simp add: p dataSize_def cfg n mult.commute mult.left_commute)
  have cl: "snd (Close ?e1) = None" by (simp add: Close_ok [OF h])
  from WriteFrame_counts [OF assms(1)] n p cl fld show ?thesis by simp
qed

theorem WriteFrame_counts_one_frame_witness:
  "(pcmChunkStarted writtenOnce \<or> healthy writtenOnce) \<and> script freshSink = []
   \<and> [GoInt16 1, GoInt16 2] \<noteq> []
   \<and> NumChans writtenOnce = 2 \<and> frames writtenOnce = 2
   \<and> frames (fst (WriteFrame writtenOnce (GoInt16 5))) = 3
   \<and> snd (Close (writeFrames ((NewEncoder (Some freshSink) 44100 16 2 1)\<lparr>Metadata := None\<rparr>)
                   [GoInt16 1, GoInt16 2])) = None
   \<and> field32 (fst (Close (writeFrames ((NewEncoder (Some freshSink) 44100 16 2 1)
                                         \<lparr>Metadata := None\<rparr>) [GoInt16 1, GoInt16 2]))) 40 = 8
   \<and> length (sinkBytes (writeFrames ((NewEncoder (Some freshSink) 44100 16 2 1)
                                       \<lparr>Metadata := None\<rparr>) [GoInt16 1, GoInt16 2])) = 44 + 4"
proof -
  have a: "pcmChunkStarted writtenOnce"
    by (simp add: writtenOnce_def run_defs cong: andThen_weak_cong)
  have b: "NumChans writtenOnce = 2" "frames writtenOnce = 2"
    by (simp_all add: writtenOnce_def run_defs cong: andThen_weak_cong)
  have s: "script freshSink = []" by (simp add: freshSink_def)
  have v: "[GoInt16 1, GoInt16 2] \<noteq> []" by simp
  have g: "go_div 16 8 = 2" by (simp add: go_div_def)
  have l: "length (sinkBytes (writeFrames ((NewEncoder (Some freshSink) 44100 16 2 1)
                                       \<lparr>Metadata := None\<rparr>) [GoInt16 1, GoInt16 2])) = 44 + 4"
    by (simp add: run_defs cong: andThen_weak_cong)
  have a': "pcmChunkStarted writtenOnce \<or> healthy writtenOnce" using a by simp
  from WriteFrame_counts_one_frame [OF a' s v, where v = "GoInt16 5" and sampleRate = 44100
      and bitDepth = 16 and numChans = 2 and audioFormat = 1 and md = None]
  show ?thesis using a b s l by (simp add: g)
qed

text \<open>
  A \<open>WriteFrame\<close> call that fails while it opens the data chunk (here the sink fails on the
  \<^verbatim>\<open>data\<close> tag, its 12th write) returns before the frame is counted.
\<close>

theorem WriteFrame_counterexample:
  "snd (WriteFrame (NewEncoder (Some chunkFailingSink) 44100 16 2 1) (GoInt16 5))
     = Some (ErrWrap ''error encoding sound header'' (ErrSink 7))
   \<and> frames (NewEncoder (Some chunkFailingSink) 44100 16 2 1) = 0
   \<and> frames (fst (WriteFrame (NewEncoder (Some chunkFailingSink) 44100 16 2 1) (GoInt16 5))) = 0"
  by (simp add: chunkFailingSink_def run_defs cong: andThen_weak_cong)

section \<open>The counters with values that have a size\<close>

lemma countersGrow_refl [simp]: "countersGrow e e"
  by (simp add: countersGrow_def)

lemma counters_binary_Write [simp]:
  "WrittenBytes (fst (binary_Write e order v)) = WrittenBytes e"
  by (simp add: binary_Write_def split: option.splits prod.splits)

lemma grow_AddLE:
  "sizable v \<Longrightarrow> countersGrow e0 e \<Longrightarrow> countersGrow e0 (fst (AddLE e v))"
  using binary_Size_sizable [of v] by (simp add: AddLE_def countersGrow_def)

lemma grow_AddBE:
  "sizable v \<Longrightarrow> countersGrow e0 e \<Longrightarrow> countersGrow e0 (fst (AddBE e v))"
  using binary_Size_sizable [of v] by (simp add: AddBE_def countersGrow_def)

lemma grow_andThen:
  assumes "countersGrow e0 (fst r)"
    and "\<And>e. countersGrow e0 e \<Longrightarrow> countersGrow e0 (fst (f e))"
  shows "countersGrow e0 (fst (andThen r f))"
  using assms by (cases "snd r") (simp_all add: andThen_def)

lemma grow_wrapping: "countersGrow e0 (fst r) \<Longrightarrow> countersGrow e0 (fst (wrapping ctx r))"
  by simp

lemma grow_flags [simp]:
  "countersGrow e0 (e\<lparr>wroteHeader := b\<rparr>) = countersGrow e0 e"
  "countersGrow e0 (e\<lparr>pcmChunkStarted := b\<rparr>) = countersGrow e0 e"
  "countersGrow e0 (e\<lparr>pcmChunkSizePos := n\<rparr>) = countersGrow e0 e"
  "countersGrow e0 (e\<lparr>pcmChunkPos := n\<rparr>) = countersGrow e0 e"
  "countersGrow e0 (e\<lparr>w := x\<rparr>) = countersGrow e0 e"
  by (simp_all add: countersGrow_def)

lemma grow_writeHeader:
  assumes "countersGrow e0 e"
  shows "countersGrow e0 (fst (writeHeader e))"
proof -
  have "countersGrow e0 (e\<lparr>wroteHeader := True\<rparr>)" using assms by simp
  then show ?thesis
    unfolding writeHeader_def Let_def
    by (auto intro!: grow_andThen grow_wrapping grow_AddLE simp: assms)
qed

lemma grow_writeSetup:
  assumes "countersGrow e0 e"
  shows "countersGrow e0 (fst (writeSetup e))"
  unfolding writeSetup_def Let_def
  using assms
  by (auto intro!: grow_andThen grow_wrapping grow_AddLE grow_writeHeader)

lemma forRange_counts_up:
  assumes "forRange is (a, n) body = Inr (a', n')"
    and "\<And>i a n a' n'. body i (a, n) = Inr (a', n') \<Longrightarrow> n \<le> n'"
  shows "(n :: int) \<le> n'"
  using assms(1)
proof (induction "is" arbitrary: a n)
  case Nil
  then show ?case by simp
next
  case (Cons i "is")
  show ?case
  proof (cases "body i (a, n)")
    case (Inl err)
    with Cons.prems show ?thesis by simp
  next
    case (Inr r)
    obtain a1 n1 where r: "r = (a1, n1)" by (cases r)
    from assms(2) Inr r have "n \<le> n1" by blast
    moreover from Cons.prems Inr r have "forRange is (a1, n1) body = Inr (a', n')" by simp
    then have "n1 \<le> n'" by (rule Cons.IH)
    ultimately show ?thesis by simp
  qed
qed

lemma encodeFrames_count_nonneg:
  assumes "encodeFrames bitDepth buf = Inr (bytes, n)"
  shows "0 \<le> n"
  using assms unfolding encodeFrames_def
  by (rule forRange_counts_up) (auto split: sum.splits)

lemma sink_Write_count: "0 \<le> fst (snd (sink_Write s p))"
  by (simp add: sink_Write_def split: option.splits prod.splits)

lemma sink_WriteAt_count: "0 \<le> fst (snd (sink_WriteAt s p off))"
  by (simp add: sink_WriteAt_def split: option.splits prod.splits)

lemma grow_addBuffer:
  assumes "countersGrow e0 e"
  shows "countersGrow e0 (fst (addBuffer e buf pos))"
proof (cases buf)
  case None
  with assms show ?thesis by (simp add: addBuffer_def)
next
  case (Some b)
  show ?thesis
  proof (cases "encodeFrames (BitDepth e) b")
    case (Inl err)
    with Some assms show ?thesis by (simp add: addBuffer_def)
  next
    case (Inr r)
    obtain bytes n where r: "r = (bytes, n)" by (cases r)
    from encodeFrames_count_nonneg Inr r have n: "0 \<le> n" by blast
    show ?thesis
    proof (cases "w e")
      case None
      with Some Inr r assms show ?thesis by (simp add: addBuffer_def)
    next
      case (Some s)
      obtain s' k err where
        k: "(case pos of None \<Rightarrow> sink_Write s bytes
             | Some p \<Rightarrow> sink_WriteAt s bytes (pcmChunkPos e + p)) = (s', k, err)"
        by (metis prod_cases3)
      have "0 \<le> k"
      proof (cases pos)
        case None
        with k have "k = fst (snd (sink_Write s bytes))" by simp
        then show ?thesis by (simp add: sink_Write_count)
      next
        case (Some p)
        with k have "k = fst (snd (sink_WriteAt s bytes (pcmChunkPos e + p)))" by simp
        then show ?thesis by (simp add: sink_WriteAt_count)
      qed
      with \<open>buf = Some b\<close> Inr r Some k n assms show ?thesis
        by (simp add: addBuffer_def countersGrow_def)
    qed
  qed
qed

lemma grow_writeMetadata:
  assumes "countersGrow e0 e"
  shows "countersGrow e0 (fst (writeMetadata e))"
  unfolding writeMetadata_def Let_def
  using assms
  by (auto intro!: grow_andThen grow_wrapping grow_AddLE grow_AddBE)

lemma grow_w_Seek: "countersGrow e0 e \<Longrightarrow> countersGrow e0 (fst (w_Seek e off whence))"
  by (simp add: w_Seek_def split: option.splits prod.splits)

lemma grow_w_Sync: "countersGrow e0 e \<Longrightarrow> countersGrow e0 (fst (w_Sync e))"
  by (simp add: w_Sync_def split: option.splits prod.splits)

text \<open>
  With values that \<^verbatim>\<open>encoding/binary\<close> can size no call lets a counter go down,
  whatever the sink does; the frame counter never goes down at all.
\<close>

lemma counters_never_decrease:
  "countersGrow e (fst (Write e buf))"
  "countersGrow e (fst (WriteAt e buf pos))"
  "countersGrow e (fst (Close e))"
  "sizable v \<Longrightarrow> countersGrow e (fst (AddLE e v))"
  "sizable v \<Longrightarrow> countersGrow e (fst (AddBE e v))"
  "sizable v \<Longrightarrow> countersGrow e (fst (WriteFrame e v))"
  "frames e \<le> frames (fst (WriteFrame e v))"
proof -
  show "countersGrow e (fst (Write e buf))"
  proof -
    have "countersGrow e (fst (case addBuffer e1 buf None of
                                 (e', Inl err) \<Rightarrow> (e', Some err)
                               | (e', Inr n) \<Rightarrow> (e', None)))"
      if "countersGrow e e1" for e1
      using grow_addBuffer [OF that, of buf None]
      by (auto split: prod.splits sum.splits)
    then show ?thesis
      unfolding Write_def by (intro grow_andThen grow_writeSetup) simp_all
  qed
  show "countersGrow e (fst (WriteAt e buf pos))"
  proof (cases "writeSetup e")
    case (Pair e1 r)
    from grow_writeSetup [of e e] Pair have g: "countersGrow e e1" by simp
    show ?thesis
      using g grow_addBuffer [OF g, of buf "Some pos"]
      by (cases r) (simp_all add: WriteAt_def Pair)
  qed
  show "countersGrow e (fst (Close e))"
    unfolding Close_def
    by (auto intro!: grow_andThen grow_wrapping grow_AddLE grow_writeMetadata grow_w_Seek
          grow_w_Sync)
  show "countersGrow e (fst (AddLE e v))" if "sizable v"
    using that by (simp add: grow_AddLE)
  show "countersGrow e (fst (AddBE e v))" if "sizable v"
    using that by (simp add: grow_AddBE)
  have h: "countersGrow e (if \<not> wroteHeader e then fst (writeHeader e) else e)"
    by (simp add: grow_writeHeader)
  show "countersGrow e (fst (WriteFrame e v))" if "sizable v"
  proof -
    have last: "countersGrow e (fst (AddLE (e1\<lparr>frames := frames e1 + 1\<rparr>) v))"
      if "countersGrow e e1" for e1
      using that \<open>sizable v\<close> by (intro grow_AddLE) (simp_all add: countersGrow_def)
    show ?thesis
      unfolding WriteFrame_def Let_def
    proof (rule grow_andThen)
      show "countersGrow e
              (fst (if \<not> pcmChunkStarted (if \<not> wroteHeader e then fst (writeHeader e) else e)
                    then andThen
                           (wrapping ''error encoding sound header''
                              (AddLE (if \<not> wroteHeader e then fst (writeHeader e) else e)
                                 DataFormatID))
                           (\<lambda>e. wrapping ''when writing wav data chunk size header''
                                  (AddLE (e\<lparr>pcmChunkStarted := True,
                                            pcmChunkSizePos :=
                                              WrittenBytes (e\<lparr>pcmChunkStarted := True\<rparr>)\<rparr>)
                                     (GoUint32 42)))
                    else (if \<not> wroteHeader e then fst (writeHeader e) else e, None)))"
        using h by (auto intro!: grow_andThen grow_wrapping grow_AddLE)
    qed (rule last)
  qed
  show "frames e \<le> frames (fst (WriteFrame e v))"
  proof -
    have f1: "frames (if \<not> wroteHeader e then fst (writeHeader e) else e) = frames e" by simp
    have andT: "frames e \<le> frames (fst (andThen r f))"
      if "frames e \<le> frames (fst r)" and "\<And>e1. frames e \<le> frames e1 \<Longrightarrow> frames e \<le> frames (fst (f e1))"
      for r f
      using that by (cases "snd r") (simp_all add: andThen_def)
    show ?thesis
      unfolding WriteFrame_def Let_def
      using f1 by (auto intro!: andT)
  qed
qed

end
